theory Spec2Isabelle
  imports Complex_Main "HOL-Library.AList"
begin

section \<open>JSON values and schemas\<close>

text \<open>
  The engine of \<^verbatim>\<open>js/data/json-schema.js\<close> works on plain JavaScript data. A value is a
  JSON value; a schema is a JSON value as well (the code reads its keys with ordinary
  property access and tests what it finds with \<^verbatim>\<open>typeof\<close>, \<^verbatim>\<open>Array.isArray\<close> and
  \<^verbatim>\<open>_isObject\<close>), so no well-formedness of schemas is built into the type.

  \<^item> Numbers are exact rationals: NaN, the infinities and rounding of doubles are not modelled.
  \<^item> An object is an association list in property enumeration order. Reads see the first
    entry of a key, writes update it in place or append.
  \<^item> \<^verbatim>\<open>undefined\<close> is not a JSON value: an absent value or key is \<open>None\<close> of an option.
  \<^item> Keys inherited from a prototype (\<^verbatim>\<open>__proto__\<close>, \<^verbatim>\<open>constructor\<close>, ...) are not modelled.
  \<^item> A private method \<^verbatim>\<open>_name\<close> of the source is \<open>name\<close> here, and \<open>name'\<close> where the
    class has a public method of the same name.
\<close>

datatype json =
    JNull
  | JBool bool
  | JNum rat
  | JStr string
  | JArr "json list"
  | JObj "(string \<times> json) list"

text \<open>A size in which the empty object is as small as any value.\<close>

fun jsz :: "json \<Rightarrow> nat" where
  "jsz (JArr xs) = Suc (sum_list (map jsz xs))"
| "jsz (JObj kvs) = Suc (sum_list (map (\<lambda>kv. jsz (snd kv)) kvs))"
| "jsz _ = 1"

text \<open>Property read \<^verbatim>\<open>schema.k\<close>: absent on anything that is not an object with that key.\<close>

definition fld :: "json \<Rightarrow> string \<Rightarrow> json option" where
  "fld s k = (case s of JObj kvs \<Rightarrow> map_of kvs k | _ \<Rightarrow> None)"

text \<open>\<^verbatim>\<open>typeof x === 'number'\<close> and \<^verbatim>\<open>typeof x === 'string'\<close> on a key of the schema.\<close>

definition num_fld :: "json \<Rightarrow> string \<Rightarrow> rat option" where
  "num_fld s k = (case fld s k of Some (JNum q) \<Rightarrow> Some q | _ \<Rightarrow> None)"

definition str_fld :: "json \<Rightarrow> string \<Rightarrow> string option" where
  "str_fld s k = (case fld s k of Some (JStr t) \<Rightarrow> Some t | _ \<Rightarrow> None)"

definition isObject :: "json option \<Rightarrow> bool" where
  "isObject x = (case x of Some (JObj kvs) \<Rightarrow> True | _ \<Rightarrow> False)"

definition getValueType :: "json option \<Rightarrow> string" where
  "getValueType x =
     (case x of
        None \<Rightarrow> ''undefined''
      | Some JNull \<Rightarrow> ''null''
      | Some (JArr xs) \<Rightarrow> ''array''
      | Some (JObj kvs) \<Rightarrow> ''object''
      | Some (JBool b) \<Rightarrow> ''boolean''
      | Some (JNum q) \<Rightarrow> ''number''
      | Some (JStr t) \<Rightarrow> ''string'')"

text \<open>\<^verbatim>\<open>Math.floor(value) === value\<close>: only a number with an integral value passes.\<close>

definition floorIsSelf :: "json option \<Rightarrow> bool" where
  "floorIsSelf x = (case x of Some (JNum q) \<Rightarrow> of_int \<lfloor>q\<rfloor> = q | _ \<Rightarrow> False)"

definition isValueType :: "json option \<Rightarrow> string \<Rightarrow> json \<Rightarrow> bool" where
  "isValueType value type schemaType =
     (JStr type = schemaType \<or> (schemaType = JStr ''integer'' \<and> floorIsSelf value))"

definition isValueTypeAny :: "json option \<Rightarrow> string \<Rightarrow> json option \<Rightarrow> bool" where
  "isValueTypeAny value type schemaTypes =
     (case schemaTypes of
        Some (JStr t) \<Rightarrow> isValueType value type (JStr t)
      | Some (JArr ts) \<Rightarrow> list_ex (isValueType value type) ts
      | _ \<Rightarrow> True)"

text \<open>
  \<^verbatim>\<open>value1 === value2\<close>. Primitives compare by content; an array or an object is equal only
  to itself, and a validated value never is the very object stored in a schema.
\<close>

definition valuesAreEqual :: "json \<Rightarrow> json \<Rightarrow> bool" where
  "valuesAreEqual value1 value2 =
     (case value1 of JArr xs \<Rightarrow> False | JObj kvs \<Rightarrow> False | _ \<Rightarrow> value1 = value2)"

definition valuesAreEqualAny :: "json \<Rightarrow> json list \<Rightarrow> bool" where
  "valuesAreEqualAny value1 valueList = list_ex (valuesAreEqual value1) valueList"

text \<open>Modelled from the spec: \<^verbatim>\<open>clone\<close> (defined outside the given sources) is a deep copy.
  On values without identity a deep copy is the value itself.\<close>

definition clone :: "json \<Rightarrow> json" where
  "clone v = v"

section \<open>Property keys\<close>

text \<open>
  A key is a property name or an array index; \<open>KNull\<close> is the \<^verbatim>\<open>null\<close> that labels the root
  entries of the trails.
\<close>

datatype key = KNull | KStr string | KIdx nat

fun nat_to_string :: "nat \<Rightarrow> string" where
  "nat_to_string n =
     (if n < 10 then [''0123456789'' ! n]
      else nat_to_string (n div 10) @ [''0123456789'' ! (n mod 10)])"

definition isDigit :: "char \<Rightarrow> bool" where
  "isDigit c = (c \<in> set ''0123456789'')"

definition digitValue :: "char \<Rightarrow> nat" where
  "digitValue c = length (takeWhile (\<lambda>d. d \<noteq> c) ''0123456789'')"

text \<open>\<^verbatim>\<open>/^\d+$/.test(property)\<close> and \<^verbatim>\<open>parseInt(property, 10)\<close> on such a string.\<close>

definition allDigits :: "string \<Rightarrow> bool" where
  "allDigits s = (s \<noteq> [] \<and> list_all isDigit s)"

definition parseInt :: "string \<Rightarrow> nat" where
  "parseInt s = foldl (\<lambda>a c. 10 * a + digitValue c) 0 s"

text \<open>
  A string names element \<open>n\<close> of an array exactly when it is the decimal numeral of \<open>n\<close>.
\<close>

definition canonicalIndex :: "string \<Rightarrow> nat option" where
  "canonicalIndex s =
     (if allDigits s \<and> nat_to_string (parseInt s) = s then Some (parseInt s) else None)"

definition keyName :: "key \<Rightarrow> string" where
  "keyName k = (case k of KStr s \<Rightarrow> s | KIdx n \<Rightarrow> nat_to_string n | KNull \<Rightarrow> ''null'')"

definition keyIndex :: "key \<Rightarrow> nat option" where
  "keyIndex k = (case k of KIdx n \<Rightarrow> Some n | KStr s \<Rightarrow> canonicalIndex s | KNull \<Rightarrow> None)"

section \<open>Schema Navigator\<close>

definition unconstrainedSchema :: json where
  "unconstrainedSchema = JObj []"

definition getSchemaOrValueType :: "json \<Rightarrow> json option \<Rightarrow> string option" where
  "getSchemaOrValueType schema value =
     (case fld schema ''type'' of
        Some (JArr ts) \<Rightarrow>
          (if value \<noteq> None \<and> JStr (getValueType value) \<in> set ts
           then Some (getValueType value) else None)
      | None \<Rightarrow> (if value \<noteq> None then Some (getValueType value) else None)
      | Some (JStr t) \<Rightarrow> Some t
      | Some other \<Rightarrow> None)"

text \<open>
  \<^verbatim>\<open>_getPropertySchema(schema, property, value, path)\<close>. The result is the sub-schema
  (\<open>None\<close> for \<^verbatim>\<open>null\<close>) together with the entries pushed on \<^verbatim>\<open>path\<close>; a caller that passes
  \<^verbatim>\<open>null\<close> for the path drops them.

  In the array case the source tests \<^verbatim>\<open>property >= 0 && property < items.length\<close> and reads
  \<^verbatim>\<open>items[property]\<close>. For a string key the read finds an element only for the decimal
  numeral of an index, and every other string ends in the \<^verbatim>\<open>additionalItems\<close> part either
  by the test or by the \<^verbatim>\<open>_isObject\<close> check on the \<^verbatim>\<open>undefined\<close> read.
\<close>

definition additionalSchema :: "json \<Rightarrow> string \<Rightarrow> json option \<times> (key \<times> json) list" where
  "additionalSchema schema k =
     (case fld schema k of
        Some (JBool False) \<Rightarrow> (None, [])
      | Some (JObj a) \<Rightarrow> (Some (JObj a), [(KStr k, JObj a)])
      | _ \<Rightarrow> (Some unconstrainedSchema, [(KNull, unconstrainedSchema)]))"

definition getPropertySchema' ::
  "json \<Rightarrow> key \<Rightarrow> json option \<Rightarrow> json option \<times> (key \<times> json) list" where
  "getPropertySchema' schema property value =
     (case getSchemaOrValueType schema value of
        Some t \<Rightarrow>
          (if t = ''object'' then
             (case fld schema ''properties'' of
                Some (JObj properties) \<Rightarrow>
                  (case map_of properties (keyName property) of
                     Some (JObj p) \<Rightarrow>
                       (Some (JObj p),
                        [(KStr ''properties'', JObj properties), (property, JObj p)])
                   | _ \<Rightarrow> additionalSchema schema ''additionalProperties'')
              | _ \<Rightarrow> additionalSchema schema ''additionalProperties'')
           else if t = ''array'' then
             (case fld schema ''items'' of
                Some (JObj items) \<Rightarrow> (Some (JObj items), [])
              | Some (JArr items) \<Rightarrow>
                  (case keyIndex property of
                     Some n \<Rightarrow>
                       (if n < length items then
                          (case items ! n of
                             JObj p \<Rightarrow>
                               (Some (JObj p), [(KStr ''items'', JArr items), (property, JObj p)])
                           | _ \<Rightarrow> additionalSchema schema ''additionalItems'')
                        else additionalSchema schema ''additionalItems'')
                   | None \<Rightarrow> additionalSchema schema ''additionalItems'')
              | _ \<Rightarrow> additionalSchema schema ''additionalItems'')
           else (None, []))
      | None \<Rightarrow> (None, []))"

definition getPropertySchema :: "json \<Rightarrow> key \<Rightarrow> json option \<Rightarrow> json option" where
  "getPropertySchema schema property value = fst (getPropertySchema' schema property value)"

section \<open>Traversal Info and errors\<close>

record info =
  valuePath :: "(key \<times> json) list"
  schemaPath :: "(key \<times> json) list"

definition valuePush :: "key \<Rightarrow> json \<Rightarrow> info \<Rightarrow> info" where
  "valuePush path value i = i\<lparr>valuePath := valuePath i @ [(path, value)]\<rparr>"

definition valuePop :: "info \<Rightarrow> info" where
  "valuePop i = i\<lparr>valuePath := butlast (valuePath i)\<rparr>"

definition schemaPush :: "key \<Rightarrow> json \<Rightarrow> info \<Rightarrow> info" where
  "schemaPush path schema i = i\<lparr>schemaPath := schemaPath i @ [(path, schema)]\<rparr>"

definition schemaPop :: "info \<Rightarrow> info" where
  "schemaPop i = i\<lparr>schemaPath := butlast (schemaPath i)\<rparr>"

text \<open>\<^verbatim>\<open>new JsonSchemaTraversalInfo(value, schema)\<close>\<close>

definition newInfo :: "json \<Rightarrow> json \<Rightarrow> info" where
  "newInfo value schema =
     schemaPush KNull schema (valuePush KNull value \<lparr>valuePath = [], schemaPath = []\<rparr>)"

text \<open>\<^verbatim>\<open>for (const [p, s] of schemaPath) { info.schemaPush(p, s); }\<close> and the matching pops.\<close>

definition schemaPushAll :: "(key \<times> json) list \<Rightarrow> info \<Rightarrow> info" where
  "schemaPushAll path i = fold (\<lambda>(p, s). schemaPush p s) path i"

definition schemaPopN :: "nat \<Rightarrow> info \<Rightarrow> info" where
  "schemaPopN n i = (schemaPop ^^ n) i"

text \<open>The messages of the source, with the interpolated parts as arguments.\<close>

datatype msg =
    TypeMismatch string "json option"
  | InvalidConstant
  | InvalidEnum
  | NotMultipleOf rat
  | LessThan rat
  | LessThanOrEqual rat
  | GreaterThan rat
  | GreaterThanOrEqual rat
  | StringTooShort
  | StringTooLong
  | PatternInvalid
  | PatternMatchFailed
  | ArrayTooShort
  | ArrayTooLong
  | NoSchemaForIndex nat
  | ContainsNoMatch
  | MissingProperty json
  | NotEnoughProperties
  | TooManyProperties
  | NoSchemaFor string
  | AnyOfMatched0
  | OneOfMatched nat
  | NotMatched nat

text \<open>
  \<open>ValidationError message value schema trail\<close> is a \<^verbatim>\<open>JsonSchemaValidationError\<close>. The
  source stores a reference to the one live info object in the error. The last argument
  here records the trails as they stood when the error was constructed; the state of the
  live object is threaded through every function below as the second component of its
  result. \<open>TypeError\<close> is the host's error for a property read on \<^verbatim>\<open>null\<close>.
\<close>

datatype error =
    ValidationError msg json json info
  | TypeError

type_synonym res = "error option \<times> info"

definition throw :: "msg \<Rightarrow> json \<Rightarrow> json \<Rightarrow> info \<Rightarrow> res" where
  "throw m value schema i = (Some (ValidationError m value schema i), i)"

definition andThen :: "res \<Rightarrow> (info \<Rightarrow> res) \<Rightarrow> res" where
  "andThen r f = (case r of (None, i) \<Rightarrow> f i | (Some e, i) \<Rightarrow> (Some e, i))"

fun firstFailure :: "msg option list \<Rightarrow> msg option" where
  "firstFailure [] = None"
| "firstFailure (Some m # rest) = Some m"
| "firstFailure (None # rest) = firstFailure rest"

definition checks :: "msg option list \<Rightarrow> json \<Rightarrow> json \<Rightarrow> info \<Rightarrow> res" where
  "checks cs value schema i =
     (case firstFailure cs of Some m \<Rightarrow> throw m value schema i | None \<Rightarrow> (None, i))"

definition failIf :: "bool \<Rightarrow> msg \<Rightarrow> msg option" where
  "failIf b m = (if b then Some m else None)"

section \<open>Validation Engine\<close>

text \<open>
  The host's regular expressions are a parameter: \<open>rx pattern flags\<close> is \<open>None\<close> when
  \<^verbatim>\<open>new RegExp(pattern, flags)\<close> throws and otherwise the test of the compiled expression.
  The test is taken to depend on the string alone, so the cache of compiled expressions
  is invisible (the \<^verbatim>\<open>lastIndex\<close> state of the global and sticky flags is not modelled).
\<close>

type_synonym regexHost = "string \<Rightarrow> string \<Rightarrow> (string \<Rightarrow> bool) option"

text \<open>
  The methods \<^verbatim>\<open>_validate...\<close> call each other recursively. Each is given here with the
  recursive \<^verbatim>\<open>this._validate\<close> as its first argument \<open>rec\<close>; \<open>validate'\<close> below closes
  the recursion. A result \<open>(None, i)\<close> is a normal return and \<open>(Some e, i)\<close> is the
  exception \<open>e\<close>, in both cases with the info object left in state \<open>i\<close>.
\<close>

type_synonym validator = "json \<Rightarrow> json \<Rightarrow> info \<Rightarrow> res"

definition validateNumber :: "json \<Rightarrow> json \<Rightarrow> rat \<Rightarrow> info \<Rightarrow> res" where
  "validateNumber value schema q info =
     checks
       [case num_fld schema ''multipleOf'' of
          Some m \<Rightarrow> failIf (m = 0 \<or> of_int \<lfloor>q / m\<rfloor> * m \<noteq> q) (NotMultipleOf m)
        | None \<Rightarrow> None,
        case num_fld schema ''minimum'' of
          Some m \<Rightarrow> failIf (q < m) (LessThan m) | None \<Rightarrow> None,
        case num_fld schema ''exclusiveMinimum'' of
          Some m \<Rightarrow> failIf (q \<le> m) (LessThanOrEqual m) | None \<Rightarrow> None,
        case num_fld schema ''maximum'' of
          Some m \<Rightarrow> failIf (q > m) (GreaterThan m) | None \<Rightarrow> None,
        case num_fld schema ''exclusiveMaximum'' of
          Some m \<Rightarrow> failIf (q \<ge> m) (GreaterThanOrEqual m) | None \<Rightarrow> None]
       value schema info"

definition patternFlagsOf :: "json \<Rightarrow> string" where
  "patternFlagsOf schema = (case str_fld schema ''patternFlags'' of Some f \<Rightarrow> f | None \<Rightarrow> [])"

definition validateString :: "regexHost \<Rightarrow> json \<Rightarrow> json \<Rightarrow> string \<Rightarrow> info \<Rightarrow> res" where
  "validateString rx value schema t info =
     checks
       [case num_fld schema ''minLength'' of
          Some m \<Rightarrow> failIf (of_nat (length t) < m) StringTooShort | None \<Rightarrow> None,
        case num_fld schema ''maxLength'' of
          Some m \<Rightarrow> failIf (of_nat (length t) > m) StringTooLong | None \<Rightarrow> None,
        case str_fld schema ''pattern'' of
          Some pattern \<Rightarrow>
            (case rx pattern (patternFlagsOf schema) of
               None \<Rightarrow> Some PatternInvalid
             | Some test \<Rightarrow> failIf (\<not> test t) PatternMatchFailed)
        | None \<Rightarrow> None]
       value schema info"

text \<open>\<^verbatim>\<open>_validateArrayContains\<close>: on a match it pops the schema trail and returns.\<close>

fun containsLoop ::
  "validator \<Rightarrow> json \<Rightarrow> json \<Rightarrow> json \<Rightarrow> json list \<Rightarrow> nat \<Rightarrow> info \<Rightarrow> res" where
  "containsLoop rec containsSchema value schema [] i info =
     throw ContainsNoMatch value schema info"
| "containsLoop rec containsSchema value schema (propertyValue # rest) i info =
     (case rec propertyValue containsSchema (valuePush (KIdx i) propertyValue info) of
        (None, info') \<Rightarrow> (None, schemaPop info')
      | (Some e, info') \<Rightarrow>
          containsLoop rec containsSchema value schema rest (Suc i) (valuePop info'))"

definition validateArrayContains :: "validator \<Rightarrow> json \<Rightarrow> json list \<Rightarrow> json \<Rightarrow> info \<Rightarrow> res" where
  "validateArrayContains rec value elems schema info =
     (case fld schema ''contains'' of
        Some (JObj c) \<Rightarrow>
          containsLoop rec (JObj c) value schema elems 0 (schemaPush (KStr ''contains'') (JObj c) info)
      | _ \<Rightarrow> (None, info))"

fun arrayLoop :: "validator \<Rightarrow> json \<Rightarrow> json \<Rightarrow> json list \<Rightarrow> nat \<Rightarrow> info \<Rightarrow> res" where
  "arrayLoop rec value schema [] i info = (None, info)"
| "arrayLoop rec value schema (propertyValue # rest) i info =
     (case getPropertySchema' schema (KIdx i) (Some value) of
        (None, path) \<Rightarrow> throw (NoSchemaForIndex i) value schema info
      | (Some propertySchema, path) \<Rightarrow>
          andThen
            (rec propertyValue propertySchema
               (valuePush (KIdx i) propertyValue (schemaPushAll path info)))
            (\<lambda>info'. arrayLoop rec value schema rest (Suc i)
               (schemaPopN (length path) (valuePop info'))))"

definition validateArray :: "validator \<Rightarrow> json \<Rightarrow> json list \<Rightarrow> json \<Rightarrow> info \<Rightarrow> res" where
  "validateArray rec value elems schema info =
     andThen
       (checks
          [case num_fld schema ''minItems'' of
             Some m \<Rightarrow> failIf (of_nat (length elems) < m) ArrayTooShort | None \<Rightarrow> None,
           case num_fld schema ''maxItems'' of
             Some m \<Rightarrow> failIf (of_nat (length elems) > m) ArrayTooLong | None \<Rightarrow> None]
          value schema info)
       (\<lambda>info1. andThen (validateArrayContains rec value elems schema info1)
          (\<lambda>info2. arrayLoop rec value schema elems 0 info2))"

text \<open>
  \<^verbatim>\<open>new Set(Object.getOwnPropertyNames(value))\<close>, kept with the value of each name. A
  \<^verbatim>\<open>Set\<close> has a \<^verbatim>\<open>size\<close> and no \<^verbatim>\<open>length\<close>: the read \<^verbatim>\<open>properties.length\<close> of the source
  yields \<^verbatim>\<open>undefined\<close>, and a comparison of \<^verbatim>\<open>undefined\<close> with a number is false.
\<close>

definition ownProperties :: "(string \<times> json) list \<Rightarrow> (string \<times> json) list" where
  "ownProperties kvs = AList.clearjunk kvs"

definition setHas :: "(string \<times> json) list \<Rightarrow> json \<Rightarrow> bool" where
  "setHas properties property =
     (case property of JStr p \<Rightarrow> p \<in> fst ` set properties | _ \<Rightarrow> False)"

definition setLength :: "(string \<times> json) list \<Rightarrow> rat option" where
  "setLength properties = None"

definition jsLess :: "rat option \<Rightarrow> rat option \<Rightarrow> bool" where
  "jsLess a b = (case (a, b) of (Some x, Some y) \<Rightarrow> x < y | _ \<Rightarrow> False)"

fun objectLoop :: "validator \<Rightarrow> json \<Rightarrow> json \<Rightarrow> (string \<times> json) list \<Rightarrow> info \<Rightarrow> res" where
  "objectLoop rec value schema [] info = (None, info)"
| "objectLoop rec value schema ((property, propertyValue) # rest) info =
     (case getPropertySchema' schema (KStr property) (Some value) of
        (None, path) \<Rightarrow> throw (NoSchemaFor property) value schema info
      | (Some propertySchema, path) \<Rightarrow>
          andThen
            (rec propertyValue propertySchema
               (valuePush (KStr property) propertyValue (schemaPushAll path info)))
            (\<lambda>info'. objectLoop rec value schema rest
               (schemaPopN (length path) (valuePop info'))))"

definition validateObject ::
  "validator \<Rightarrow> json \<Rightarrow> (string \<times> json) list \<Rightarrow> json \<Rightarrow> info \<Rightarrow> res" where
  "validateObject rec value kvs schema info =
     (let properties = ownProperties kvs in
      andThen
        (checks
           ((case fld schema ''required'' of
               Some (JArr required) \<Rightarrow>
                 map (\<lambda>property. failIf (\<not> setHas properties property) (MissingProperty property))
                   required
             | _ \<Rightarrow> []) @
            [case num_fld schema ''minProperties'' of
               Some m \<Rightarrow> failIf (jsLess (setLength properties) (Some m)) NotEnoughProperties
             | None \<Rightarrow> None,
             case num_fld schema ''maxProperties'' of
               Some m \<Rightarrow> failIf (jsLess (Some m) (setLength properties)) TooManyProperties
             | None \<Rightarrow> None])
           value schema info)
        (\<lambda>info1. objectLoop rec value schema properties info1))"

definition validateSingleSchema :: "regexHost \<Rightarrow> validator \<Rightarrow> json \<Rightarrow> json \<Rightarrow> info \<Rightarrow> res" where
  "validateSingleSchema rx rec value schema info =
     (let type = getValueType (Some value); schemaType = fld schema ''type'' in
      andThen
        (checks
           [failIf (\<not> isValueTypeAny (Some value) type schemaType) (TypeMismatch type schemaType),
            case fld schema ''const'' of
              Some schemaConst \<Rightarrow> failIf (\<not> valuesAreEqual value schemaConst) InvalidConstant
            | None \<Rightarrow> None,
            case fld schema ''enum'' of
              Some (JArr schemaEnum) \<Rightarrow> failIf (\<not> valuesAreEqualAny value schemaEnum) InvalidEnum
            | _ \<Rightarrow> None]
           value schema info)
        (\<lambda>info1.
           case value of
             JNum q \<Rightarrow> validateNumber value schema q info1
           | JStr t \<Rightarrow> validateString rx value schema t info1
           | JArr elems \<Rightarrow> validateArray rec value elems schema info1
           | JObj kvs \<Rightarrow> validateObject rec value kvs schema info1
           | _ \<Rightarrow> (None, info1)))"

definition validateConditional :: "validator \<Rightarrow> json \<Rightarrow> json \<Rightarrow> info \<Rightarrow> res" where
  "validateConditional rec value schema info =
     (case fld schema ''if'' of
        Some (JObj c) \<Rightarrow>
          (case rec value (JObj c) (schemaPush (KStr ''if'') (JObj c) info) of
             (caught, info') \<Rightarrow>
               (let okay = (caught = None);
                    info1 = schemaPop info';
                    nextSchema = (if okay then fld schema ''then'' else fld schema ''else'')
                in case nextSchema of
                     Some (JObj n) \<Rightarrow>
                       andThen
                         (rec value (JObj n)
                            (schemaPush (KStr (if okay then ''then'' else ''else'')) (JObj n) info1))
                         (\<lambda>info2. (None, schemaPop info2))
                   | _ \<Rightarrow> (None, info1)))
      | _ \<Rightarrow> (None, info))"

fun allOfLoop :: "validator \<Rightarrow> json \<Rightarrow> json list \<Rightarrow> nat \<Rightarrow> info \<Rightarrow> res" where
  "allOfLoop rec value [] i info = (None, info)"
| "allOfLoop rec value (subSchema # rest) i info =
     andThen (rec value subSchema (schemaPush (KIdx i) subSchema info))
       (\<lambda>info'. allOfLoop rec value rest (Suc i) (schemaPop info'))"

definition validateAllOf :: "validator \<Rightarrow> json \<Rightarrow> json \<Rightarrow> info \<Rightarrow> res" where
  "validateAllOf rec value schema info =
     (case fld schema ''allOf'' of
        Some (JArr subSchemas) \<Rightarrow>
          andThen
            (allOfLoop rec value subSchemas 0 (schemaPush (KStr ''allOf'') (JArr subSchemas) info))
            (\<lambda>info'. (None, schemaPop info'))
      | _ \<Rightarrow> (None, info))"

text \<open>\<^verbatim>\<open>_validateAnyOf\<close>: the \<^verbatim>\<open>return\<close> inside the \<^verbatim>\<open>try\<close> leaves without a pop.\<close>

fun anyOfLoop :: "validator \<Rightarrow> json \<Rightarrow> json \<Rightarrow> json list \<Rightarrow> nat \<Rightarrow> info \<Rightarrow> res" where
  "anyOfLoop rec value schema [] i info = throw AnyOfMatched0 value schema info"
| "anyOfLoop rec value schema (subSchema # rest) i info =
     (case rec value subSchema (schemaPush (KIdx i) subSchema info) of
        (None, info') \<Rightarrow> (None, info')
      | (Some e, info') \<Rightarrow> anyOfLoop rec value schema rest (Suc i) (schemaPop info'))"

definition validateAnyOf :: "validator \<Rightarrow> json \<Rightarrow> json \<Rightarrow> info \<Rightarrow> res" where
  "validateAnyOf rec value schema info =
     (case fld schema ''anyOf'' of
        Some (JArr subSchemas) \<Rightarrow>
          anyOfLoop rec value schema subSchemas 0
            (schemaPush (KStr ''anyOf'') (JArr subSchemas) info)
      | _ \<Rightarrow> (None, info))"

text \<open>The loop of \<^verbatim>\<open>_validateOneOf\<close> returns the count and the state of the info object.\<close>

fun oneOfLoop :: "validator \<Rightarrow> json \<Rightarrow> json list \<Rightarrow> nat \<Rightarrow> nat \<Rightarrow> info \<Rightarrow> nat \<times> info" where
  "oneOfLoop rec value [] i count info = (count, info)"
| "oneOfLoop rec value (subSchema # rest) i count info =
     (case rec value subSchema (schemaPush (KIdx i) subSchema info) of
        (None, info') \<Rightarrow> oneOfLoop rec value rest (Suc i) (Suc count) (schemaPop info')
      | (Some e, info') \<Rightarrow> oneOfLoop rec value rest (Suc i) count (schemaPop info'))"

definition validateOneOf :: "validator \<Rightarrow> json \<Rightarrow> json \<Rightarrow> info \<Rightarrow> res" where
  "validateOneOf rec value schema info =
     (case fld schema ''oneOf'' of
        Some (JArr subSchemas) \<Rightarrow>
          (case oneOfLoop rec value subSchemas 0 0
                  (schemaPush (KStr ''oneOf'') (JArr subSchemas) info) of
             (count, info') \<Rightarrow>
               (if count \<noteq> 1 then throw (OneOfMatched count) value schema info'
                else (None, schemaPop info')))
      | _ \<Rightarrow> (None, info))"

fun noneOfLoop :: "validator \<Rightarrow> json \<Rightarrow> json \<Rightarrow> json list \<Rightarrow> nat \<Rightarrow> info \<Rightarrow> res" where
  "noneOfLoop rec value schema [] i info = (None, schemaPop info)"
| "noneOfLoop rec value schema (subSchema # rest) i info =
     (case rec value subSchema (schemaPush (KIdx i) subSchema info) of
        (Some e, info') \<Rightarrow> noneOfLoop rec value schema rest (Suc i) (schemaPop info')
      | (None, info') \<Rightarrow> throw (NotMatched i) value schema info')"

definition validateNoneOf :: "validator \<Rightarrow> json \<Rightarrow> json \<Rightarrow> info \<Rightarrow> res" where
  "validateNoneOf rec value schema info =
     (case fld schema ''not'' of
        Some (JArr subSchemas) \<Rightarrow>
          noneOfLoop rec value schema subSchemas 0
            (schemaPush (KStr ''not'') (JArr subSchemas) info)
      | _ \<Rightarrow> (None, info))"

text \<open>
  The body of \<^verbatim>\<open>_validate\<close>. Its first statement reads \<^verbatim>\<open>schema.type\<close>, which on the
  schema \<^verbatim>\<open>null\<close> (a member of a combinator list may be any JSON value) is a TypeError.
\<close>

definition validateBody :: "regexHost \<Rightarrow> validator \<Rightarrow> json \<Rightarrow> json \<Rightarrow> info \<Rightarrow> res" where
  "validateBody rx rec value schema info =
     (if schema = JNull then (Some TypeError, info)
      else
        andThen (validateSingleSchema rx rec value schema info) (\<lambda>info1.
        andThen (validateConditional rec value schema info1) (\<lambda>info2.
        andThen (validateAllOf rec value schema info2) (\<lambda>info3.
        andThen (validateAnyOf rec value schema info3) (\<lambda>info4.
        andThen (validateOneOf rec value schema info4) (\<lambda>info5.
        validateNoneOf rec value schema info5))))))"

subsection \<open>Sizes of parts\<close>

lemma jsz_pos: "0 < jsz v"
  by (cases v) simp_all

lemma jsz_elem_le: "x \<in> set xs \<Longrightarrow> jsz x \<le> sum_list (map jsz xs)"
  by (induction xs) auto

lemma jsz_elem_lt: "x \<in> set xs \<Longrightarrow> jsz x < jsz (JArr xs)"
  using jsz_elem_le [of x xs] by simp

lemma jsz_entry_le: "(k, v) \<in> set kvs \<Longrightarrow> jsz v \<le> sum_list (map (\<lambda>kv. jsz (snd kv)) kvs)"
  by (induction kvs) auto

lemma jsz_entry_lt: "(k, v) \<in> set kvs \<Longrightarrow> jsz v < jsz (JObj kvs)"
  using jsz_entry_le [of k v kvs] by simp

lemma fld_lt: "fld s k = Some v \<Longrightarrow> jsz v < jsz s"
  by (auto simp: fld_def split: json.splits dest!: map_of_SomeD jsz_entry_lt)

lemma additionalSchema_le: "additionalSchema s k = (Some ps, path) \<Longrightarrow> jsz ps \<le> jsz s"
  using jsz_pos [of s]
  by (auto simp: additionalSchema_def unconstrainedSchema_def split: option.splits json.splits bool.splits
      dest!: fld_lt)

lemma getPropertySchema'_le:
  "getPropertySchema' s p v = (Some ps, path) \<Longrightarrow> jsz ps \<le> jsz s"
  unfolding getPropertySchema'_def
  by (auto split: option.splits json.splits if_splits dest!: additionalSchema_le fld_lt map_of_SomeD jsz_entry_lt
      dest: jsz_elem_lt [OF nth_mem])

subsection \<open>The recursion of the validator\<close>

lemma containsLoop_cong:
  "(\<And>x i. x \<in> set es \<Longrightarrow> rec x cs i = rec' x cs i) \<Longrightarrow>
   containsLoop rec cs value schema es n info = containsLoop rec' cs value schema es n info"
  by (induction es arbitrary: n info) (auto split: prod.splits option.splits)

lemma arrayLoop_cong:
  "(\<And>x ps i. x \<in> set es \<Longrightarrow> jsz ps \<le> jsz schema \<Longrightarrow> rec x ps i = rec' x ps i) \<Longrightarrow>
   arrayLoop rec value schema es n info = arrayLoop rec' value schema es n info"
proof (induction es arbitrary: n info)
  case Nil
  show ?case by simp
next
  case (Cons x es)
  have tl: "\<And>n info. arrayLoop rec value schema es n info = arrayLoop rec' value schema es n info"
    using Cons.prems by (intro Cons.IH) auto
  show ?case
    using Cons.prems [of x] getPropertySchema'_le [of schema "KIdx n" "Some value"]
    by (auto simp: tl split: prod.splits option.splits)
qed

lemma objectLoop_cong:
  "(\<And>x ps i. x \<in> snd ` set props \<Longrightarrow> jsz ps \<le> jsz schema \<Longrightarrow> rec x ps i = rec' x ps i) \<Longrightarrow>
   objectLoop rec value schema props info = objectLoop rec' value schema props info"
proof (induction props arbitrary: info)
  case Nil
  show ?case by simp
next
  case (Cons kv props)
  obtain k x where kv: "kv = (k, x)" by (cases kv)
  have tl: "\<And>info. objectLoop rec value schema props info = objectLoop rec' value schema props info"
    using Cons.prems by (intro Cons.IH) auto
  show ?case
    using Cons.prems [of x] getPropertySchema'_le [of schema "KStr k" "Some value"]
    by (auto simp: tl kv split: prod.splits option.splits)
qed

lemma allOfLoop_cong:
  "(\<And>m i. m \<in> set ms \<Longrightarrow> rec value m i = rec' value m i) \<Longrightarrow>
   allOfLoop rec value ms n info = allOfLoop rec' value ms n info"
  by (induction ms arbitrary: n info) auto

lemma anyOfLoop_cong:
  "(\<And>m i. m \<in> set ms \<Longrightarrow> rec value m i = rec' value m i) \<Longrightarrow>
   anyOfLoop rec value schema ms n info = anyOfLoop rec' value schema ms n info"
  by (induction ms arbitrary: n info) (auto split: prod.splits option.splits)

lemma oneOfLoop_cong:
  "(\<And>m i. m \<in> set ms \<Longrightarrow> rec value m i = rec' value m i) \<Longrightarrow>
   oneOfLoop rec value ms n c info = oneOfLoop rec' value ms n c info"
  by (induction ms arbitrary: n c info) (auto split: prod.splits option.splits)

lemma noneOfLoop_cong:
  "(\<And>m i. m \<in> set ms \<Longrightarrow> rec value m i = rec' value m i) \<Longrightarrow>
   noneOfLoop rec value schema ms n info = noneOfLoop rec' value schema ms n info"
  by (induction ms arbitrary: n info) (auto split: prod.splits option.splits)

lemma set_clearjunk_subset: "set (AList.clearjunk kvs) \<subseteq> set kvs"
  by (induction kvs rule: AList.clearjunk.induct) (auto simp: AList.delete_eq)

lemma validateBody_cong [fundef_cong]:
  assumes "value = value'" "schema = schema'" "info = info'"
    and r: "\<And>a b c. jsz a + jsz b < jsz value' + jsz schema' \<Longrightarrow> rec a b c = rec' a b c"
  shows "validateBody rx rec value schema info = validateBody rx rec' value' schema' info'"
proof -
  have single: "\<And>i. validateSingleSchema rx rec value' schema' i = validateSingleSchema rx rec' value' schema' i"
  proof -
    fix i
    show "validateSingleSchema rx rec value' schema' i = validateSingleSchema rx rec' value' schema' i"
    proof (cases value')
      case (JArr es)
      have c: "\<And>cs j. fld schema' ''contains'' = Some cs \<Longrightarrow>
          containsLoop rec cs value' schema' es 0 j = containsLoop rec' cs value' schema' es 0 j"
        by (rule containsLoop_cong, rule r) (auto simp: JArr dest!: fld_lt jsz_elem_le)
      have a: "\<And>j. arrayLoop rec value' schema' es 0 j = arrayLoop rec' value' schema' es 0 j"
        by (rule arrayLoop_cong, rule r) (auto simp: JArr dest!: jsz_elem_le)
      have c': "\<And>j. validateArrayContains rec value' es schema' j = validateArrayContains rec' value' es schema' j"
        by (simp add: validateArrayContains_def c split: option.splits json.splits)
      have "\<And>j. validateArray rec value' es schema' j = validateArray rec' value' es schema' j"
        unfolding validateArray_def c' a ..
      then show ?thesis
        by (simp add: validateSingleSchema_def JArr)
    next
      case (JObj kvs)
      have a: "\<And>j. objectLoop rec value' schema' (ownProperties kvs) j
            = objectLoop rec' value' schema' (ownProperties kvs) j"
      proof (rule objectLoop_cong, rule r)
        fix x ps
        assume "x \<in> snd ` set (ownProperties kvs)" and ps: "jsz ps \<le> jsz schema'"
        then obtain k where "(k, x) \<in> set kvs"
          using set_clearjunk_subset [of kvs] by (auto simp: ownProperties_def)
        then have "jsz x < jsz value'"
          unfolding JObj by (rule jsz_entry_lt)
        with ps show "jsz x + jsz ps < jsz value' + jsz schema'" by simp
      qed
      have "\<And>j. validateObject rec value' kvs schema' j = validateObject rec' value' kvs schema' j"
        unfolding validateObject_def Let_def a ..
      then show ?thesis
        by (simp add: validateSingleSchema_def JObj)
    qed (simp_all add: validateSingleSchema_def)
  qed
  have sub: "\<And>m i. jsz m < jsz schema' \<Longrightarrow> rec value' m i = rec' value' m i"
    by (rule r) simp
  have mem: "\<And>k ms m i. fld schema' k = Some (JArr ms) \<Longrightarrow> m \<in> set ms \<Longrightarrow> rec value' m i = rec' value' m i"
    by (rule sub) (auto dest!: fld_lt jsz_elem_le)
  have cond: "\<And>i. validateConditional rec value' schema' i = validateConditional rec' value' schema' i"
  proof -
    fix i
    have "\<And>k m j. fld schema' k = Some m \<Longrightarrow> rec value' m j = rec' value' m j"
      by (rule sub) (rule fld_lt)
    then show "validateConditional rec value' schema' i = validateConditional rec' value' schema' i"
      unfolding validateConditional_def Let_def
      by (auto split: option.splits json.splits prod.splits)
  qed
  have allOf: "\<And>i. validateAllOf rec value' schema' i = validateAllOf rec' value' schema' i"
    by (auto simp: validateAllOf_def split: option.splits json.splits
        intro!: arg_cong2 [where f = andThen] allOfLoop_cong mem)
  have anyOf: "\<And>i. validateAnyOf rec value' schema' i = validateAnyOf rec' value' schema' i"
    by (auto simp: validateAnyOf_def split: option.splits json.splits intro!: anyOfLoop_cong mem)
  have oneOf: "\<And>i. validateOneOf rec value' schema' i = validateOneOf rec' value' schema' i"
  proof -
    fix i
    have "\<And>ms j. fld schema' ''oneOf'' = Some (JArr ms) \<Longrightarrow>
        oneOfLoop rec value' ms 0 0 j = oneOfLoop rec' value' ms 0 0 j"
      by (rule oneOfLoop_cong) (rule mem)
    then show "validateOneOf rec value' schema' i = validateOneOf rec' value' schema' i"
      by (simp add: validateOneOf_def split: option.splits json.splits)
  qed
  have noneOf: "\<And>i. validateNoneOf rec value' schema' i = validateNoneOf rec' value' schema' i"
    by (auto simp: validateNoneOf_def split: option.splits json.splits intro!: noneOfLoop_cong mem)
  show ?thesis
    unfolding assms(1-3) validateBody_def
    by (simp add: single cond allOf anyOf oneOf ext [OF noneOf])
qed

text \<open>\<^verbatim>\<open>_validate\<close>: every recursive call is on a pair of smaller total size.\<close>

function validate' :: "regexHost \<Rightarrow> json \<Rightarrow> json \<Rightarrow> info \<Rightarrow> res" where
  "validate' rx value schema info = validateBody rx (validate' rx) value schema info"
  by pat_completeness auto
termination
  by (relation "measure (\<lambda>(rx, value, schema, info). jsz value + jsz schema)") auto

declare validate'.simps [simp del]

definition validate :: "regexHost \<Rightarrow> json \<Rightarrow> json \<Rightarrow> res" where
  "validate rx value schema = validate' rx value schema (newInfo value schema)"

definition isValid :: "regexHost \<Rightarrow> json \<Rightarrow> json \<Rightarrow> bool" where
  "isValid rx value schema = (fst (validate rx value schema) = None)"

subsection \<open>The trails never decide the outcome\<close>

text \<open>
  Whether a validation passes does not depend on the state of the info object: the trails
  are written and never read.
\<close>

definition passes :: "res \<Rightarrow> bool" where
  "passes r = (fst r = None)"

definition blind :: "validator \<Rightarrow> bool" where
  "blind rec = (\<forall>a b c c'. passes (rec a b c) = passes (rec a b c'))"

lemma blindD: "blind rec \<Longrightarrow> passes (rec a b c) = passes (rec a b c')"
  by (simp add: blind_def)

lemma passes_simps [simp]: "passes (None, i)" "\<not> passes (Some e, i)"
  by (simp_all add: passes_def)

lemma passes_throw [simp]: "\<not> passes (throw m v s i)"
  by (simp add: throw_def)

lemma passes_andThen: "passes (andThen r f) = (passes r \<and> passes (f (snd r)))"
  by (cases r) (auto simp: andThen_def passes_def split: option.splits)

lemma passes_checks: "passes (checks cs v s i) = (firstFailure cs = None)"
  by (simp add: checks_def split: option.splits)

lemma snd_checks: "passes (checks cs v s i) \<Longrightarrow> snd (checks cs v s i) = i"
  by (simp add: checks_def split: option.splits)

lemma containsLoop_blind:
  "blind rec \<Longrightarrow>
   passes (containsLoop rec cs v s es n i) = passes (containsLoop rec cs v s es n' i')"
proof (induction es arbitrary: n n' i i')
  case Nil
  show ?case by simp
next
  case (Cons x es)
  have b: "passes (rec x cs (valuePush (KIdx n) x i)) = passes (rec x cs (valuePush (KIdx n') x i'))"
    using Cons.prems by (rule blindD)
  show ?case
    using b Cons.IH [OF Cons.prems]
    by (auto split: prod.splits option.splits)
qed


lemma arrayLoop_blind:
  "blind rec \<Longrightarrow> passes (arrayLoop rec v s es n i) = passes (arrayLoop rec v s es n i')"
proof (induction es arbitrary: n i i')
  case Nil
  show ?case by simp
next
  case (Cons x es)
  show ?case
  proof (cases "getPropertySchema' s (KIdx n) (Some v)")
    case (Pair r path)
    show ?thesis
    proof (cases r)
      case None
      with Pair show ?thesis by simp
    next
      case (Some ps)
      have b: "passes (rec x ps (valuePush (KIdx n) x (schemaPushAll path i)))
             = passes (rec x ps (valuePush (KIdx n) x (schemaPushAll path i')))"
        using Cons.prems by (rule blindD)
      show ?thesis
        using b Cons.IH [OF Cons.prems] by (simp add: Pair Some passes_andThen) blast
    qed
  qed
qed

lemma objectLoop_blind:
  "blind rec \<Longrightarrow> passes (objectLoop rec v s props i) = passes (objectLoop rec v s props i')"
proof (induction props arbitrary: i i')
  case Nil
  show ?case by simp
next
  case (Cons kv props)
  obtain k x where kv: "kv = (k, x)" by (cases kv)
  show ?case
  proof (cases "getPropertySchema' s (KStr k) (Some v)")
    case (Pair r path)
    show ?thesis
    proof (cases r)
      case None
      with Pair kv show ?thesis by simp
    next
      case (Some ps)
      have b: "passes (rec x ps (valuePush (KStr k) x (schemaPushAll path i)))
             = passes (rec x ps (valuePush (KStr k) x (schemaPushAll path i')))"
        using Cons.prems by (rule blindD)
      show ?thesis
        using b Cons.IH [OF Cons.prems] by (simp add: kv Pair Some passes_andThen) blast
    qed
  qed
qed

lemma allOfLoop_blind:
  "blind rec \<Longrightarrow> passes (allOfLoop rec v ms n i) = passes (allOfLoop rec v ms n' i')"
proof (induction ms arbitrary: n n' i i')
  case Nil
  show ?case by simp
next
  case (Cons m ms)
  have b: "passes (rec v m (schemaPush (KIdx n) m i)) = passes (rec v m (schemaPush (KIdx n') m i'))"
    using Cons.prems by (rule blindD)
  show ?case
    using b Cons.IH [OF Cons.prems] by (simp add: passes_andThen) blast
qed

lemma anyOfLoop_blind:
  "blind rec \<Longrightarrow> passes (anyOfLoop rec v s ms n i) = passes (anyOfLoop rec v s ms n' i')"
proof (induction ms arbitrary: n n' i i')
  case Nil
  show ?case by simp
next
  case (Cons m ms)
  have b: "passes (rec v m (schemaPush (KIdx n) m i)) = passes (rec v m (schemaPush (KIdx n') m i'))"
    using Cons.prems by (rule blindD)
  show ?case
    using b Cons.IH [OF Cons.prems] by (auto split: prod.splits option.splits)
qed

text \<open>The count of \<^verbatim>\<open>_validateOneOf\<close> is the number of members that validate the value.\<close>

lemma oneOfLoop_count:
  "blind rec \<Longrightarrow>
   fst (oneOfLoop rec v ms n c i) = c + length (filter (\<lambda>m. passes (rec v m i0)) ms)"
proof (induction ms arbitrary: n c i)
  case Nil
  show ?case by simp
next
  case (Cons m ms)
  have b: "passes (rec v m (schemaPush (KIdx n) m i)) = passes (rec v m i0)"
    using Cons.prems by (rule blindD)
  show ?case
    using b Cons.IH [OF Cons.prems] by (auto split: prod.splits option.splits)
qed

text \<open>\<^verbatim>\<open>_validateNoneOf\<close> stops at the first member that validates the value.\<close>

lemma noneOfLoop_passes:
  "blind rec \<Longrightarrow>
   passes (noneOfLoop rec v s ms n i) = (\<not> list_ex (\<lambda>m. passes (rec v m i0)) ms)"
proof (induction ms arbitrary: n i)
  case Nil
  show ?case by simp
next
  case (Cons m ms)
  have b: "passes (rec v m (schemaPush (KIdx n) m i)) = passes (rec v m i0)"
    using Cons.prems by (rule blindD)
  show ?case
    using b Cons.IH [OF Cons.prems] by (auto split: prod.splits option.splits)
qed


lemma validateSingleSchema_blind:
  assumes "blind rec"
  shows "passes (validateSingleSchema rx rec v s i) = passes (validateSingleSchema rx rec v s i')"
proof -
  have arr: "\<And>es j j'. passes (validateArray rec v es s j) = passes (validateArray rec v es s j')"
    unfolding validateArray_def validateArrayContains_def
    using containsLoop_blind [OF assms] arrayLoop_blind [OF assms]
    by (simp add: passes_andThen passes_checks split: option.splits json.splits) blast
  have obj: "\<And>kvs j j'. passes (validateObject rec v kvs s j) = passes (validateObject rec v kvs s j')"
    unfolding validateObject_def Let_def
    using objectLoop_blind [OF assms]
    by (simp add: passes_andThen passes_checks) blast
  have num: "\<And>q j j'. passes (validateNumber v s q j) = passes (validateNumber v s q j')"
    by (simp add: validateNumber_def passes_checks)
  have str: "\<And>t j j'. passes (validateString rx v s t j) = passes (validateString rx v s t j')"
    by (simp add: validateString_def passes_checks)
  show ?thesis
    unfolding validateSingleSchema_def Let_def
    using arr obj num str
    by (cases v) (simp_all add: passes_andThen passes_checks, blast+)
qed

lemma validateConditional_blind:
  assumes "blind rec"
  shows "passes (validateConditional rec v s i) = passes (validateConditional rec v s i')"
proof (cases "fld s ''if''")
  case None
  then show ?thesis by (simp add: validateConditional_def)
next
  case (Some c)
  show ?thesis
  proof (cases "isObject (Some c)")
    case False
    with Some show ?thesis
      by (auto simp: validateConditional_def isObject_def split: json.splits)
  next
    case True
    have b: "passes (rec v c (schemaPush (KStr ''if'') c i)) = passes (rec v c (schemaPush (KStr ''if'') c i'))"
      using assms by (rule blindD)
    have n: "\<And>m j j'. passes (rec v m j) = passes (rec v m j')"
      using assms by (rule blindD)
    obtain c1 j1 where r1: "rec v c (schemaPush (KStr ''if'') c i) = (c1, j1)"
      by (cases "rec v c (schemaPush (KStr ''if'') c i)")
    obtain c2 j2 where r2: "rec v c (schemaPush (KStr ''if'') c i') = (c2, j2)"
      by (cases "rec v c (schemaPush (KStr ''if'') c i')")
    from b r1 r2 have eq: "(c1 = None) = (c2 = None)"
      by (simp add: passes_def)
    obtain cobj where c: "c = JObj cobj"
      using True by (auto simp: isObject_def split: json.splits)
    define nextSchema where "nextSchema = (if c1 = None then fld s ''then'' else fld s ''else'')"
    have l: "passes (validateConditional rec v s i) =
        (case nextSchema of
           Some (JObj m) \<Rightarrow> passes (rec v (JObj m)
              (schemaPush (KStr (if c1 = None then ''then'' else ''else'')) (JObj m) (schemaPop j1)))
         | _ \<Rightarrow> True)"
      using Some r1 unfolding validateConditional_def Let_def c nextSchema_def
      by (simp add: passes_andThen split: option.splits json.splits)
    have r: "passes (validateConditional rec v s i') =
        (case nextSchema of
           Some (JObj m) \<Rightarrow> passes (rec v (JObj m)
              (schemaPush (KStr (if c1 = None then ''then'' else ''else'')) (JObj m) (schemaPop j2)))
         | _ \<Rightarrow> True)"
      using Some r2 eq unfolding validateConditional_def Let_def c nextSchema_def
      by (cases c1; cases c2) (simp_all add: passes_andThen split: option.splits json.splits)
    show ?thesis
      unfolding l r using n by (simp split: option.splits json.splits)
  qed
qed

lemma validateAllOf_blind:
  "blind rec \<Longrightarrow> passes (validateAllOf rec v s i) = passes (validateAllOf rec v s i')"
  using allOfLoop_blind [of rec v]
  by (auto simp: validateAllOf_def passes_andThen split: option.splits json.splits)

lemma validateAnyOf_blind:
  "blind rec \<Longrightarrow> passes (validateAnyOf rec v s i) = passes (validateAnyOf rec v s i')"
  using anyOfLoop_blind [of rec v s]
  by (auto simp: validateAnyOf_def split: option.splits json.splits)

lemma validateOneOf_passes:
  "blind rec \<Longrightarrow> fld s ''oneOf'' = Some (JArr ms) \<Longrightarrow>
   passes (validateOneOf rec v s i) = (length (filter (\<lambda>m. passes (rec v m i0)) ms) = 1)"
  using oneOfLoop_count [of rec v ms 0 0 "schemaPush (KStr ''oneOf'') (JArr ms) i" i0]
  by (auto simp: validateOneOf_def split: prod.splits)

lemma validateOneOf_blind:
  "blind rec \<Longrightarrow> passes (validateOneOf rec v s i) = passes (validateOneOf rec v s i')"
proof (cases "fld s ''oneOf''")
  case None
  then show ?thesis by (simp add: validateOneOf_def)
next
  case (Some a)
  assume b: "blind rec"
  show ?thesis
  proof (cases a)
    case (JArr ms)
    show ?thesis
      unfolding validateOneOf_passes [OF b Some [unfolded JArr], of v _ i] ..
  qed (simp_all add: validateOneOf_def Some)
qed

lemma validateNoneOf_passes:
  "blind rec \<Longrightarrow> fld s ''not'' = Some (JArr ms) \<Longrightarrow>
   passes (validateNoneOf rec v s i) = (\<not> list_ex (\<lambda>m. passes (rec v m i0)) ms)"
  using noneOfLoop_passes [of rec v s ms 0 "schemaPush (KStr ''not'') (JArr ms) i" i0]
  by (simp add: validateNoneOf_def)

lemma validateNoneOf_blind:
  "blind rec \<Longrightarrow> passes (validateNoneOf rec v s i) = passes (validateNoneOf rec v s i')"
proof (cases "fld s ''not''")
  case None
  then show ?thesis by (simp add: validateNoneOf_def)
next
  case (Some a)
  assume b: "blind rec"
  show ?thesis
  proof (cases a)
    case (JArr ms)
    show ?thesis
      unfolding validateNoneOf_passes [OF b Some [unfolded JArr], of v _ i] ..
  qed (simp_all add: validateNoneOf_def Some)
qed

lemma validateBody_blind:
  assumes "blind rec"
  shows "passes (validateBody rx rec v s i) = passes (validateBody rx rec v s i')"
  unfolding validateBody_def
  using validateSingleSchema_blind [OF assms, of rx v s] validateConditional_blind [OF assms, of v s]
    validateAllOf_blind [OF assms, of v s] validateAnyOf_blind [OF assms, of v s]
    validateOneOf_blind [OF assms, of v s] validateNoneOf_blind [OF assms, of v s]
  by (simp add: passes_andThen) blast

lemma validate'_blind_step:
  "passes (validate' rx v s i) = passes (validate' rx v s i')"
proof (induction "jsz v + jsz s" arbitrary: v s i i' rule: less_induct)
  case less
  define R where "R = (\<lambda>a b c. if jsz a + jsz b < jsz v + jsz s then validate' rx a b c else (None, c))"
  have "blind R"
    unfolding blind_def R_def using less by auto
  moreover have "\<And>j. validate' rx v s j = validateBody rx R v s j"
    unfolding validate'.simps [of rx v s] R_def
    by (rule validateBody_cong) simp_all
  ultimately show ?case
    using validateBody_blind [of R rx v s i i'] by simp
qed

lemma validate'_blind: "blind (validate' rx)"
  unfolding blind_def using validate'_blind_step by blast

lemma passes_validate': "passes (validate' rx v s i) = isValid rx v s"
  unfolding isValid_def validate_def passes_def [symmetric] by (rule validate'_blind_step)

subsection \<open>Results of the combinator clauses\<close>

lemma noneOfLoop_result:
  "blind rec \<Longrightarrow>
   \<exists>i'. noneOfLoop rec v s ms n i =
     (if list_ex (\<lambda>m. passes (rec v m i0)) ms
      then throw (NotMatched (n + length (takeWhile (\<lambda>m. \<not> passes (rec v m i0)) ms))) v s i'
      else (None, i'))"
proof (induction ms arbitrary: n i)
  case Nil
  show ?case by simp
next
  case (Cons m ms)
  have b: "passes (rec v m (schemaPush (KIdx n) m i)) = passes (rec v m i0)"
    using Cons.prems by (rule blindD)
  obtain c j where r: "rec v m (schemaPush (KIdx n) m i) = (c, j)"
    by (cases "rec v m (schemaPush (KIdx n) m i)")
  show ?case
  proof (cases c)
    case None
    with r b show ?thesis by (auto simp: passes_def)
  next
    case (Some e)
    with r b have np: "\<not> passes (rec v m i0)" by (simp add: passes_def)
    from Cons.IH [OF Cons.prems, of "Suc n" "schemaPop j"] r Some np
    show ?thesis by (auto split: if_splits)
  qed
qed

lemma validateOneOf_result:
  assumes "fld schema ''oneOf'' = Some (JArr subSchemas)"
  shows "\<exists>info'. validateOneOf (validate' rx) value schema info =
           (if length (filter (isValid rx value) subSchemas) = 1 then (None, info')
            else throw (OneOfMatched (length (filter (isValid rx value) subSchemas))) value schema info')"
proof -
  obtain count j where l: "oneOfLoop (validate' rx) value subSchemas 0 0
      (schemaPush (KStr ''oneOf'') (JArr subSchemas) info) = (count, j)"
    by (cases "oneOfLoop (validate' rx) value subSchemas 0 0
      (schemaPush (KStr ''oneOf'') (JArr subSchemas) info)")
  have "count = length (filter (\<lambda>m. passes (validate' rx value m info)) subSchemas)"
    using oneOfLoop_count [OF validate'_blind, of rx "value" subSchemas 0 0
        "schemaPush (KStr ''oneOf'') (JArr subSchemas) info" info] l
    by simp
  then have c: "count = length (filter (isValid rx value) subSchemas)"
    by (simp add: passes_validate')
  show ?thesis
    using assms l c by (auto simp: validateOneOf_def)
qed

lemma validateNoneOf_result:
  assumes "fld schema ''not'' = Some (JArr subSchemas)"
  shows "\<exists>info'. validateNoneOf (validate' rx) value schema info =
           (if list_ex (isValid rx value) subSchemas
            then throw (NotMatched (length (takeWhile (\<lambda>m. \<not> isValid rx value m) subSchemas)))
                   value schema info'
            else (None, info'))"
  using noneOfLoop_result [OF validate'_blind, of rx "value" schema subSchemas 0
      "schemaPush (KStr ''not'') (JArr subSchemas) info" info] assms
  by (auto simp: validateNoneOf_def passes_validate' split: if_splits)

subsection \<open>Schemas that consist of one combinator\<close>

lemma arrayLoop_passes:
  "(\<And>x j. x \<in> set es \<Longrightarrow> passes (rec x unconstrainedSchema j)) \<Longrightarrow>
   (\<And>n. getPropertySchema' s (KIdx n) (Some v) = (Some unconstrainedSchema, [(KNull, unconstrainedSchema)])) \<Longrightarrow>
   passes (arrayLoop rec v s es n i)"
  by (induction es arbitrary: n i) (simp_all add: passes_andThen)

lemma objectLoop_passes:
  "(\<And>x j. x \<in> snd ` set props \<Longrightarrow> passes (rec x unconstrainedSchema j)) \<Longrightarrow>
   (\<And>k. getPropertySchema' s (KStr k) (Some v) = (Some unconstrainedSchema, [(KNull, unconstrainedSchema)])) \<Longrightarrow>
   passes (objectLoop rec v s props i)"
  by (induction props arbitrary: i) (auto simp add: passes_andThen)

text \<open>The keys read by \<^verbatim>\<open>_validateSingleSchema\<close> and by the Schema Navigator.\<close>

definition plainKeys :: "string list" where
  "plainKeys = [''type'', ''const'', ''enum'', ''multipleOf'', ''minimum'', ''exclusiveMinimum'',
     ''maximum'', ''exclusiveMaximum'', ''minLength'', ''maxLength'', ''pattern'', ''minItems'',
     ''maxItems'', ''contains'', ''required'', ''minProperties'', ''maxProperties'',
     ''properties'', ''additionalProperties'', ''items'', ''additionalItems'']"

lemma validateSingleSchema_plain:
  assumes k: "\<And>k. k \<in> set plainKeys \<Longrightarrow> fld s k = None"
    and r: "\<And>x j. jsz x < jsz v \<Longrightarrow> passes (rec x unconstrainedSchema j)"
  shows "passes (validateSingleSchema rx rec v s i)"
proof -
  have f: "fld s ''type'' = None" "fld s ''const'' = None" "fld s ''enum'' = None"
    "fld s ''multipleOf'' = None" "fld s ''minimum'' = None" "fld s ''exclusiveMinimum'' = None"
    "fld s ''maximum'' = None" "fld s ''exclusiveMaximum'' = None" "fld s ''minLength'' = None"
    "fld s ''maxLength'' = None" "fld s ''pattern'' = None" "fld s ''minItems'' = None"
    "fld s ''maxItems'' = None" "fld s ''contains'' = None" "fld s ''required'' = None"
    "fld s ''minProperties'' = None" "fld s ''maxProperties'' = None" "fld s ''properties'' = None"
    "fld s ''additionalProperties'' = None" "fld s ''items'' = None" "fld s ''additionalItems'' = None"
    by (rule k, simp add: plainKeys_def)+
  show ?thesis
  proof (cases v)
    case (JArr es)
    have g: "\<And>n. getPropertySchema' s (KIdx n) (Some v) = (Some unconstrainedSchema, [(KNull, unconstrainedSchema)])"
      by (simp add: getPropertySchema'_def getSchemaOrValueType_def f JArr getValueType_def additionalSchema_def)
    have "passes (arrayLoop rec v s es 0 i)" for i
    proof (rule arrayLoop_passes)
      fix x j assume "x \<in> set es"
      then have "jsz x < jsz v" unfolding JArr by (rule jsz_elem_lt)
      then show "passes (rec x unconstrainedSchema j)" by (rule r)
    qed (rule g)
    then show ?thesis
      by (simp add: validateSingleSchema_def JArr validateArray_def validateArrayContains_def
          passes_andThen passes_checks isValueTypeAny_def num_fld_def f failIf_def)
  next
    case (JObj kvs)
    have g: "\<And>k. getPropertySchema' s (KStr k) (Some v) = (Some unconstrainedSchema, [(KNull, unconstrainedSchema)])"
      by (simp add: getPropertySchema'_def getSchemaOrValueType_def f JObj getValueType_def additionalSchema_def)
    have "passes (objectLoop rec v s (ownProperties kvs) i)" for i
    proof (rule objectLoop_passes)
      fix x j assume "x \<in> snd ` set (ownProperties kvs)"
      then obtain k where "(k, x) \<in> set kvs"
        using set_clearjunk_subset [of kvs] by (auto simp: ownProperties_def)
      then have "jsz x < jsz v" unfolding JObj by (rule jsz_entry_lt)
      then show "passes (rec x unconstrainedSchema j)" by (rule r)
    qed (rule g)
    then show ?thesis
      by (simp add: validateSingleSchema_def JObj validateObject_def
          passes_andThen passes_checks isValueTypeAny_def num_fld_def f failIf_def)
  qed (simp_all add: validateSingleSchema_def validateNumber_def validateString_def str_fld_def
          passes_andThen passes_checks isValueTypeAny_def num_fld_def f failIf_def)
qed


lemma passesE: "passes r \<Longrightarrow> r = (None, snd r)"
  by (cases r) (simp add: passes_def)

lemma andThen_return [simp]: "andThen r (\<lambda>i. (None, i)) = r"
  by (cases r) (auto simp: andThen_def split: option.splits)

lemma validate'_unconstrained: "passes (validate' rx v unconstrainedSchema i)"
proof (induction "jsz v" arbitrary: v i rule: less_induct)
  case less
  have f: "\<And>k. fld unconstrainedSchema k = None"
    by (simp add: fld_def unconstrainedSchema_def)
  have "passes (validateSingleSchema rx (validate' rx) v unconstrainedSchema i)"
    by (rule validateSingleSchema_plain) (simp_all add: f less)
  then show ?case
    unfolding validate'.simps [of rx v]
    by (simp add: validateBody_def passes_andThen validateConditional_def validateAllOf_def
        validateAnyOf_def validateOneOf_def validateNoneOf_def f)
      (simp add: unconstrainedSchema_def)
qed

lemma validate'_only_oneOf:
  "\<exists>i1. validate' rx v (JObj [(''oneOf'', x)]) i = validateOneOf (validate' rx) v (JObj [(''oneOf'', x)]) i1"
proof -
  let ?s = "JObj [(''oneOf'', x)]"
  have "passes (validateSingleSchema rx (validate' rx) v ?s i)"
    by (rule validateSingleSchema_plain) (auto simp: fld_def plainKeys_def validate'_unconstrained)
  then obtain i1 where "validateSingleSchema rx (validate' rx) v ?s i = (None, i1)"
    using passesE by blast
  moreover have "validateNoneOf (validate' rx) v ?s = (\<lambda>i. (None, i))"
    by (rule ext) (simp add: validateNoneOf_def fld_def)
  ultimately have "validate' rx v ?s i = validateOneOf (validate' rx) v ?s i1"
    unfolding validate'.simps [of rx v ?s]
    by (simp add: validateBody_def validateConditional_def validateAllOf_def validateAnyOf_def
        fld_def andThen_def [of "(None, _)"])
  then show ?thesis ..
qed

lemma validate'_only_not:
  "\<exists>i1. validate' rx v (JObj [(''not'', x)]) i = validateNoneOf (validate' rx) v (JObj [(''not'', x)]) i1"
proof -
  let ?s = "JObj [(''not'', x)]"
  have "passes (validateSingleSchema rx (validate' rx) v ?s i)"
    by (rule validateSingleSchema_plain) (auto simp: fld_def plainKeys_def validate'_unconstrained)
  then obtain i1 where "validateSingleSchema rx (validate' rx) v ?s i = (None, i1)"
    using passesE by blast
  then have "validate' rx v ?s i = validateNoneOf (validate' rx) v ?s i1"
    unfolding validate'.simps [of rx v ?s]
    by (simp add: validateBody_def validateConditional_def validateAllOf_def validateAnyOf_def
        validateOneOf_def fld_def andThen_def [of "(None, _)"])
  then show ?thesis ..
qed

text \<open>A host without regular expressions, for the closed examples.\<close>

definition noRegex :: regexHost where
  "noRegex pattern flags = None"

subsection \<open>The trail held by an error\<close>

text \<open>
  \<open>snapshotLive r\<close>: if \<open>r\<close> is a thrown ValidationError, the trails recorded when the error was
  constructed are the trails of the live info object in the state in which \<open>r\<close> leaves it.
\<close>

definition snapshotLive :: "res \<Rightarrow> bool" where
  "snapshotLive r = (case r of (Some (ValidationError m v s trail), i) \<Rightarrow> trail = i | _ \<Rightarrow> True)"

lemma snapshotLive_simps [simp]:
  "snapshotLive (None, i)" "snapshotLive (Some TypeError, i)"
  "snapshotLive (Some (ValidationError m v s t), i) = (t = i)"
  "snapshotLive (throw m v s i)"
  by (simp_all add: snapshotLive_def throw_def)

lemma snapshotLive_andThen:
  "snapshotLive r \<Longrightarrow> (\<And>i. snapshotLive (f i)) \<Longrightarrow> snapshotLive (andThen r f)"
  by (cases r) (auto simp: andThen_def split: option.splits)

lemma snapshotLive_checks [simp]: "snapshotLive (checks cs v s i)"
  by (simp add: checks_def split: option.splits)

lemma containsLoop_live: "snapshotLive (containsLoop rec cs v s es n i)"
  by (induction es arbitrary: n i) (auto split: prod.splits option.splits)

lemma arrayLoop_live:
  "(\<And>a b c. snapshotLive (rec a b c)) \<Longrightarrow> snapshotLive (arrayLoop rec v s es n i)"
  by (induction es arbitrary: n i) (auto split: prod.splits option.splits intro!: snapshotLive_andThen)

lemma objectLoop_live:
  "(\<And>a b c. snapshotLive (rec a b c)) \<Longrightarrow> snapshotLive (objectLoop rec v s props i)"
  by (induction props arbitrary: i) (auto split: prod.splits option.splits intro!: snapshotLive_andThen)

lemma allOfLoop_live:
  "(\<And>a b c. snapshotLive (rec a b c)) \<Longrightarrow> snapshotLive (allOfLoop rec v ms n i)"
  by (induction ms arbitrary: n i) (auto intro!: snapshotLive_andThen)

lemma anyOfLoop_live: "snapshotLive (anyOfLoop rec v s ms n i)"
  by (induction ms arbitrary: n i) (auto split: prod.splits option.splits)

lemma noneOfLoop_live: "snapshotLive (noneOfLoop rec v s ms n i)"
  by (induction ms arbitrary: n i) (auto split: prod.splits option.splits)

lemma validateNumber_live [simp]: "snapshotLive (validateNumber v s q i)"
  by (simp add: validateNumber_def)

lemma validateString_live [simp]: "snapshotLive (validateString rx v s t i)"
  by (simp add: validateString_def)

lemma validateArrayContains_live: "snapshotLive (validateArrayContains rec v es s i)"
  by (simp add: validateArrayContains_def containsLoop_live split: option.splits json.splits)

lemma validateArray_live:
  assumes "\<And>a b c. snapshotLive (rec a b c)"
  shows "snapshotLive (validateArray rec v es s i)"
  unfolding validateArray_def
  by (intro snapshotLive_andThen snapshotLive_checks validateArrayContains_live arrayLoop_live assms)

lemma validateObject_live:
  assumes "\<And>a b c. snapshotLive (rec a b c)"
  shows "snapshotLive (validateObject rec v kvs s i)"
  unfolding validateObject_def Let_def
  by (intro snapshotLive_andThen snapshotLive_checks objectLoop_live assms)

lemma validateSingleSchema_live:
  assumes "\<And>a b c. snapshotLive (rec a b c)"
  shows "snapshotLive (validateSingleSchema rx rec v s i)"
  unfolding validateSingleSchema_def Let_def
  by (rule snapshotLive_andThen, rule snapshotLive_checks)
    (cases v; simp add: validateArray_live validateObject_live assms)

lemma validateConditional_live:
  assumes "\<And>a b c. snapshotLive (rec a b c)"
  shows "snapshotLive (validateConditional rec v s i)"
proof (cases "fld s ''if''")
  case None
  then show ?thesis by (simp add: validateConditional_def)
next
  case (Some c)
  show ?thesis
  proof (cases c)
    case (JObj cobj)
    obtain c1 j1 where r: "rec v (JObj cobj) (schemaPush (KStr ''if'') (JObj cobj) i) = (c1, j1)"
      by (cases "rec v (JObj cobj) (schemaPush (KStr ''if'') (JObj cobj) i)")
    show ?thesis
      unfolding validateConditional_def Let_def
      by (simp add: Some JObj r split: option.splits json.splits)
        (intro conjI impI allI snapshotLive_andThen assms; simp)
  qed (simp_all add: validateConditional_def Some)
qed

lemma validateAllOf_live:
  assumes "\<And>a b c. snapshotLive (rec a b c)"
  shows "snapshotLive (validateAllOf rec v s i)"
  unfolding validateAllOf_def
  by (simp split: option.splits json.splits)
    (intro conjI impI allI snapshotLive_andThen allOfLoop_live assms; simp)

lemma validateAnyOf_live: "snapshotLive (validateAnyOf rec v s i)"
  by (simp add: validateAnyOf_def anyOfLoop_live split: option.splits json.splits)

lemma validateOneOf_live: "snapshotLive (validateOneOf rec v s i)"
  by (simp add: validateOneOf_def split: option.splits json.splits prod.splits)

lemma validateNoneOf_live: "snapshotLive (validateNoneOf rec v s i)"
  by (simp add: validateNoneOf_def noneOfLoop_live split: option.splits json.splits)

lemma validateBody_live:
  assumes "\<And>a b c. snapshotLive (rec a b c)"
  shows "snapshotLive (validateBody rx rec v s i)"
  unfolding validateBody_def
  by (simp, intro impI snapshotLive_andThen validateSingleSchema_live validateConditional_live
      validateAllOf_live validateAnyOf_live validateOneOf_live validateNoneOf_live assms)

lemma validate'_live: "snapshotLive (validate' rx v s i)"
proof (induction "jsz v + jsz s" arbitrary: v s i rule: less_induct)
  case less
  define R where "R = (\<lambda>a b c. if jsz a + jsz b < jsz v + jsz s then validate' rx a b c else (None, c))"
  have "\<And>a b c. snapshotLive (R a b c)"
    unfolding R_def using less by auto
  moreover have "validate' rx v s i = validateBody rx R v s i"
    unfolding validate'.simps [of rx v s] R_def
    by (rule validateBody_cong) simp_all
  ultimately show ?case
    using validateBody_live [of R rx v s i] by simp
qed

section \<open>Evaluation\<close>

lemmas nav_defs = fld_def num_fld_def str_fld_def isObject_def getValueType_def floorIsSelf_def
  isValueType_def isValueTypeAny_def valuesAreEqual_def valuesAreEqualAny_def
  unconstrainedSchema_def getSchemaOrValueType_def additionalSchema_def getPropertySchema'_def
  getPropertySchema_def keyName_def keyIndex_def

lemmas info_defs = valuePush_def valuePop_def schemaPush_def schemaPop_def newInfo_def
  schemaPushAll_def schemaPopN_def

lemmas validate_defs = throw_def andThen_def checks_def failIf_def validateNumber_def
  patternFlagsOf_def validateString_def validateArrayContains_def validateArray_def
  ownProperties_def setHas_def setLength_def jsLess_def validateObject_def
  validateSingleSchema_def validateConditional_def validateAllOf_def validateAnyOf_def
  validateOneOf_def validateNoneOf_def validateBody_def validate_def isValid_def validate'.simps

section \<open>Claims\<close>





text \<open>
  C6 (the claim: an object with fewer own properties than \<^verbatim>\<open>minProperties\<close>, or more than
  \<^verbatim>\<open>maxProperties\<close>, fails validation). The source compares \<^verbatim>\<open>properties.length\<close>, where
  \<^verbatim>\<open>properties\<close> is a \<^verbatim>\<open>Set\<close>; that read is \<^verbatim>\<open>undefined\<close> and neither comparison is ever
  true. The empty object passes a schema that asks for at least one property, and an
  object with two properties passes a schema that allows at most one.
\<close>

theorem property_count_not_enforced:
  "isValid rx (JObj []) (JObj [(''minProperties'', JNum 1)]) \<and>
   isValid rx (JObj [(''a'', JNum 1), (''b'', JNum 2)]) (JObj [(''maxProperties'', JNum 1)])"
  by (simp add: nav_defs info_defs validate_defs AList.clearjunk.simps AList.delete_eq)

text \<open>
  C7 (the claim: after a validate call that returns without throwing, both trails hold
  exactly the entries they held before the call, also when an \<^verbatim>\<open>anyOf\<close> or a \<^verbatim>\<open>contains\<close>
  clause succeeds). \<^verbatim>\<open>_validateAnyOf\<close> returns from inside its loop without popping the two
  entries it pushed, and \<^verbatim>\<open>_validateArrayContains\<close> returns without popping the value entry
  of the matching element. The first two conjuncts are the results of two calls that
  return normally; the last two are the trails the calls started with.
\<close>

theorem trails_not_restored:
  "validate rx (JNum 1) (JObj [(''anyOf'', JArr [JObj []])]) =
     (None, \<lparr>valuePath = [(KNull, JNum 1)],
             schemaPath = [(KNull, JObj [(''anyOf'', JArr [JObj []])]),
                           (KStr ''anyOf'', JArr [JObj []]), (KIdx 0, JObj [])]\<rparr>) \<and>
   validate rx (JArr [JNum 1]) (JObj [(''contains'', JObj [])]) =
     (None, \<lparr>valuePath = [(KNull, JArr [JNum 1]), (KIdx 0, JNum 1)],
             schemaPath = [(KNull, JObj [(''contains'', JObj [])])]\<rparr>) \<and>
   newInfo (JNum 1) (JObj [(''anyOf'', JArr [JObj []])]) =
     \<lparr>valuePath = [(KNull, JNum 1)],
      schemaPath = [(KNull, JObj [(''anyOf'', JArr [JObj []])])]\<rparr> \<and>
   newInfo (JArr [JNum 1]) (JObj [(''contains'', JObj [])]) =
     \<lparr>valuePath = [(KNull, JArr [JNum 1])],
      schemaPath = [(KNull, JObj [(''contains'', JObj [])])]\<rparr>"
  by (simp add: nav_defs info_defs validate_defs)

text \<open>
  A traversal path leads from the root schema to a node: its first entry is the root,
  entered under the key \<^verbatim>\<open>null\<close>, and every later entry is the part of the entry before it
  that its key names (the unconstrained schema, entered under \<^verbatim>\<open>null\<close>, may follow any
  entry).
\<close>

definition child :: "json \<Rightarrow> key \<Rightarrow> json option" where
  "child parent k =
     (case k of
        KNull \<Rightarrow> Some unconstrainedSchema
      | KStr name \<Rightarrow> fld parent name
      | KIdx n \<Rightarrow> (case parent of
                     JArr xs \<Rightarrow> (if n < length xs then Some (xs ! n) else None)
                   | _ \<Rightarrow> fld parent (nat_to_string n)))"

fun descends :: "json \<Rightarrow> (key \<times> json) list \<Rightarrow> bool" where
  "descends parent [] = True"
| "descends parent ((k, s) # rest) = (child parent k = Some s \<and> descends s rest)"

definition isPath :: "(key \<times> json) list \<Rightarrow> bool" where
  "isPath path = (case path of [] \<Rightarrow> False | (k, s) # rest \<Rightarrow> k = KNull \<and> descends s rest)"




section \<open>Normalization Engine\<close>

text \<open>
  The info object that \<^verbatim>\<open>_getValidValueOrDefault\<close> and its helpers push to and pop from is
  never read on these paths (\<^verbatim>\<open>isValid\<close> starts a fresh one), so it is left out here. The
  in-place updates of the source are returned as the new value.
\<close>

definition getDefaultTypeValue :: "json option \<Rightarrow> json" where
  "getDefaultTypeValue type =
     (case type of
        Some (JStr t) \<Rightarrow>
          (if t = ''null'' then JNull
           else if t = ''boolean'' then JBool False
           else if t = ''number'' \<or> t = ''integer'' then JNum 0
           else if t = ''string'' then JStr []
           else if t = ''array'' then JArr []
           else if t = ''object'' then JObj []
           else JNull)
      | _ \<Rightarrow> JNull)"

definition getDefaultSchemaValue :: "json \<Rightarrow> json" where
  "getDefaultSchemaValue schema =
     (let schemaType = fld schema ''type'' in
      case fld schema ''default'' of
        Some schemaDefault \<Rightarrow>
          (if isValueTypeAny (Some schemaDefault) (getValueType (Some schemaDefault)) schemaType
           then clone schemaDefault
           else getDefaultTypeValue schemaType)
      | None \<Rightarrow> getDefaultTypeValue schemaType)"

text \<open>
  The recursive \<^verbatim>\<open>this._getValidValueOrDefault(schema, value, info)\<close> is the argument \<open>rec\<close>
  of the helpers; its second argument is \<open>None\<close> for \<^verbatim>\<open>undefined\<close>.
\<close>

type_synonym normalizer = "json \<Rightarrow> json option \<Rightarrow> json"

text \<open>
  An entry of \<^verbatim>\<open>required\<close> is used as a property key. For an entry that is not a string the
  host converts it to one; that conversion is the parameter \<open>toKey\<close>. The set
  \<^verbatim>\<open>properties\<close> holds strings, so \<^verbatim>\<open>properties.delete\<close> removes a name only for a string.
\<close>

definition propertyKey :: "(json \<Rightarrow> string) \<Rightarrow> json \<Rightarrow> string" where
  "propertyKey toKey property = (case property of JStr p \<Rightarrow> p | _ \<Rightarrow> toKey property)"

definition setDelete :: "json \<Rightarrow> string list \<Rightarrow> string list" where
  "setDelete property properties =
     (case property of JStr p \<Rightarrow> removeAll p properties | _ \<Rightarrow> properties)"

fun requiredLoop ::
  "(json \<Rightarrow> string) \<Rightarrow> normalizer \<Rightarrow> json \<Rightarrow> json list \<Rightarrow>
   string list \<times> (string \<times> json) list \<Rightarrow> string list \<times> (string \<times> json) list" where
  "requiredLoop toKey rec schema [] (properties, kvs) = (properties, kvs)"
| "requiredLoop toKey rec schema (property # rest) (properties, kvs) =
     (let k = propertyKey toKey property in
      case getPropertySchema schema (KStr k) (Some (JObj kvs)) of
        None \<Rightarrow> requiredLoop toKey rec schema rest (setDelete property properties, kvs)
      | Some propertySchema \<Rightarrow>
          requiredLoop toKey rec schema rest
            (setDelete property properties,
             AList.update k (rec propertySchema (map_of kvs k)) kvs))"

fun propertiesLoop ::
  "normalizer \<Rightarrow> json \<Rightarrow> string list \<Rightarrow> (string \<times> json) list \<Rightarrow> (string \<times> json) list" where
  "propertiesLoop rec schema [] kvs = kvs"
| "propertiesLoop rec schema (property # rest) kvs =
     (case getPropertySchema schema (KStr property) (Some (JObj kvs)) of
        None \<Rightarrow> propertiesLoop rec schema rest (AList.delete property kvs)
      | Some propertySchema \<Rightarrow>
          propertiesLoop rec schema rest
            (AList.update property (rec propertySchema (map_of kvs property)) kvs))"

definition populateObjectDefaults ::
  "(json \<Rightarrow> string) \<Rightarrow> normalizer \<Rightarrow> (string \<times> json) list \<Rightarrow> json \<Rightarrow> json" where
  "populateObjectDefaults toKey rec kvs schema =
     (case requiredLoop toKey rec schema
             (case fld schema ''required'' of Some (JArr required) \<Rightarrow> required | _ \<Rightarrow> [])
             (map fst (ownProperties kvs), kvs) of
        (properties, kvs') \<Rightarrow> JObj (propertiesLoop rec schema properties kvs'))"

text \<open>
  \<^verbatim>\<open>value.splice(start, deleteCount)\<close> with the host's conversion of both arguments to
  integers (truncation) and its clamping of the range.
\<close>

definition truncate :: "rat \<Rightarrow> int" where
  "truncate q = (if q \<ge> 0 then \<lfloor>q\<rfloor> else \<lceil>q\<rceil>)"

definition splice :: "rat \<Rightarrow> rat \<Rightarrow> 'a list \<Rightarrow> 'a list" where
  "splice start deleteCount xs =
     (let len = int (length xs);
          relativeStart = truncate start;
          actualStart = (if relativeStart < 0 then max (len + relativeStart) 0
                         else min relativeStart len);
          actualDeleteCount = min (max (truncate deleteCount) 0) (len - actualStart)
      in take (nat actualStart) xs @ drop (nat (actualStart + actualDeleteCount)) xs)"

text \<open>
  The three loops of \<^verbatim>\<open>_populateArrayDefaults\<close>. The Schema Navigator reads only the type of
  the array it is given, so the array as it was on entry stands for its later states. The
  second loop runs \<open>i\<close> from the length while \<^verbatim>\<open>i < minItems\<close>, that is over the indices
  below the ceiling of \<^verbatim>\<open>minItems\<close>, and stops at the first index without a schema.
\<close>

fun elementsLoop :: "normalizer \<Rightarrow> json \<Rightarrow> json \<Rightarrow> nat \<Rightarrow> json list \<Rightarrow> json list" where
  "elementsLoop rec schema value i [] = []"
| "elementsLoop rec schema value i (x # xs) =
     (case getPropertySchema schema (KIdx i) (Some value) of
        None \<Rightarrow> x
      | Some propertySchema \<Rightarrow> rec propertySchema (Some x))
     # elementsLoop rec schema value (Suc i) xs"

fun padLoop :: "normalizer \<Rightarrow> json \<Rightarrow> json \<Rightarrow> nat list \<Rightarrow> json list \<Rightarrow> json list" where
  "padLoop rec schema value [] xs = xs"
| "padLoop rec schema value (i # rest) xs =
     (case getPropertySchema schema (KIdx i) (Some value) of
        None \<Rightarrow> xs
      | Some propertySchema \<Rightarrow> padLoop rec schema value rest (xs @ [rec propertySchema None]))"

definition populateArrayDefaults :: "normalizer \<Rightarrow> json list \<Rightarrow> json \<Rightarrow> json" where
  "populateArrayDefaults rec elems schema =
     (let value = JArr elems;
          xs1 = elementsLoop rec schema value 0 elems;
          xs2 = (case num_fld schema ''minItems'' of
                   Some minItems \<Rightarrow>
                     (if of_nat (length xs1) < minItems
                      then padLoop rec schema value [length xs1 ..< nat \<lceil>minItems\<rceil>] xs1
                      else xs1)
                 | None \<Rightarrow> xs1);
          xs3 = (case num_fld schema ''maxItems'' of
                   Some maxItems \<Rightarrow>
                     (if of_nat (length xs2) > maxItems
                      then splice maxItems (of_nat (length xs2) - maxItems) xs2
                      else xs2)
                 | None \<Rightarrow> xs2)
      in JArr xs3)"

definition normalizeBody ::
  "regexHost \<Rightarrow> (json \<Rightarrow> string) \<Rightarrow> normalizer \<Rightarrow> json \<Rightarrow> json option \<Rightarrow> json" where
  "normalizeBody rx toKey rec schema value =
     (let value1 =
            (case value of
               None \<Rightarrow> getDefaultSchemaValue schema
             | Some v \<Rightarrow>
                 (if \<not> isValueTypeAny value (getValueType value) (fld schema ''type'')
                  then getDefaultSchemaValue schema else v))
      in case value1 of
           JObj kvs \<Rightarrow> populateObjectDefaults toKey rec kvs schema
         | JArr elems \<Rightarrow> populateArrayDefaults rec elems schema
         | _ \<Rightarrow>
             (if \<not> isValid rx value1 schema then
                (let schemaDefault = getDefaultSchemaValue schema in
                 if isValid rx schemaDefault schema then schemaDefault else value1)
              else value1))"

subsection \<open>The recursion of the normalizer\<close>

text \<open>
  A recursive call is on a smaller schema, or on a schema of the same size (the unconstrained
  schema inside a schema without keys) and a part of the value.
\<close>

definition osz :: "json option \<Rightarrow> nat" where
  "osz x = (case x of None \<Rightarrow> 0 | Some v \<Rightarrow> jsz v)"

lemma jsz_one_fld: "jsz s \<le> 1 \<Longrightarrow> fld s k = None"
proof (cases "fld s k")
  case (Some a)
  assume "jsz s \<le> 1"
  with fld_lt [OF Some] jsz_pos [of a] show ?thesis by simp
qed simp

lemma additionalSchema_lt:
  "additionalSchema s k = (Some ps, path) \<Longrightarrow> 1 < jsz s \<Longrightarrow> jsz ps < jsz s"
  by (auto simp: additionalSchema_def unconstrainedSchema_def
      split: option.splits json.splits bool.splits dest!: fld_lt)

lemma getPropertySchema_lt:
  assumes "getPropertySchema s p v = Some ps" "1 < jsz s"
  shows "jsz ps < jsz s"
proof -
  obtain path where g: "getPropertySchema' s p v = (Some ps, path)"
    using assms(1) by (cases "getPropertySchema' s p v") (simp add: getPropertySchema_def)
  have sub: "\<And>k x y. fld s k = Some x \<Longrightarrow> jsz y < jsz x \<Longrightarrow> jsz y < jsz s"
    using fld_lt by fastforce
  have add: "\<And>k. additionalSchema s k = (Some ps, path) \<Longrightarrow> jsz ps < jsz s"
    using additionalSchema_lt assms(2) by blast
  show ?thesis
  proof (cases "getSchemaOrValueType s v")
    case None
    with g show ?thesis by (simp add: getPropertySchema'_def)
  next
    case (Some t)
    consider "t = ''object''" | "t \<noteq> ''object''" "t = ''array''" | "t \<noteq> ''object''" "t \<noteq> ''array''"
      by blast
    then show ?thesis
    proof cases
      case 1
      show ?thesis
      proof (cases "fld s ''properties''")
        case None
        with g Some 1 add show ?thesis by (simp add: getPropertySchema'_def)
      next
        case (Some props)
        show ?thesis
        proof (cases props)
          case (JObj pk)
          show ?thesis
          proof (cases "map_of pk (keyName p)")
            case None
            with g \<open>getSchemaOrValueType s v = Some t\<close> 1 Some JObj add show ?thesis
              by (simp add: getPropertySchema'_def)
          next
            case (Some q)
            have "jsz q < jsz s"
              using sub [OF \<open>fld s ''properties'' = Some props\<close>, of q]
                jsz_entry_lt [OF map_of_SomeD [OF Some]] JObj by simp
            with g \<open>getSchemaOrValueType s v = Some t\<close> 1 \<open>fld s ''properties'' = Some props\<close> JObj Some add
            show ?thesis
              by (cases q) (auto simp add: getPropertySchema'_def)
          qed
        qed (use g \<open>getSchemaOrValueType s v = Some t\<close> 1 Some add in \<open>simp_all add: getPropertySchema'_def\<close>)
      qed
    next
      case 2
      show ?thesis
      proof (cases "fld s ''items''")
        case None
        with g Some 2 add show ?thesis by (simp add: getPropertySchema'_def)
      next
        case (Some items)
        show ?thesis
        proof (cases items)
          case (JObj x)
          with g \<open>getSchemaOrValueType s v = Some t\<close> 2 Some fld_lt [OF Some] show ?thesis
            by (simp add: getPropertySchema'_def)
        next
          case (JArr xs)
          have el: "\<And>n. n < length xs \<Longrightarrow> jsz (xs ! n) < jsz s"
            using sub [OF Some] jsz_elem_lt [OF nth_mem] JArr by blast
          show ?thesis
            using g \<open>getSchemaOrValueType s v = Some t\<close> 2 Some JArr add el
            by (auto simp add: getPropertySchema'_def split: option.splits if_splits json.splits)
        qed (use g \<open>getSchemaOrValueType s v = Some t\<close> 2 Some add in \<open>simp_all add: getPropertySchema'_def\<close>)
      qed
    next
      case 3
      with g Some show ?thesis by (simp add: getPropertySchema'_def)
    qed
  qed
qed

lemma getPropertySchema_le:
  "getPropertySchema s p v = Some ps \<Longrightarrow> jsz ps \<le> jsz s"
  using getPropertySchema'_le [of s p v ps] by (cases "getPropertySchema' s p v") (simp add: getPropertySchema_def)

lemma requiredLoop_cong:
  "(\<And>ps x. jsz ps < jsz schema \<Longrightarrow> rec ps x = rec' ps x) \<Longrightarrow> 1 < jsz schema \<Longrightarrow>
   requiredLoop toKey rec schema required st = requiredLoop toKey rec' schema required st"
proof (induction required arbitrary: st)
  case Nil
  show ?case by (cases st) simp
next
  case (Cons p required)
  obtain properties kvs where st: "st = (properties, kvs)" by (cases st)
  show ?case
    using Cons getPropertySchema_lt [of schema _ "Some (JObj kvs)"]
    by (simp add: st Let_def split: option.splits)
qed

lemma propertiesLoop_cong_big:
  "(\<And>ps x. jsz ps < jsz schema \<Longrightarrow> rec ps x = rec' ps x) \<Longrightarrow> 1 < jsz schema \<Longrightarrow>
   propertiesLoop rec schema names kvs = propertiesLoop rec' schema names kvs"
proof (induction names arbitrary: kvs)
  case Nil
  show ?case by simp
next
  case (Cons p names)
  show ?case
    using Cons getPropertySchema_lt [of schema _ "Some (JObj kvs)"]
    by (simp split: option.splits)
qed

lemma propertiesLoop_cong_small:
  "(\<And>q ps. q \<in> set names \<Longrightarrow> jsz ps \<le> jsz schema \<Longrightarrow>
       rec ps (map_of kvs q) = rec' ps (map_of kvs q)) \<Longrightarrow>
   distinct names \<Longrightarrow>
   propertiesLoop rec schema names kvs = propertiesLoop rec' schema names kvs"
proof (induction names arbitrary: kvs)
  case Nil
  show ?case by simp
next
  case (Cons p names)
  have p: "\<And>ps. jsz ps \<le> jsz schema \<Longrightarrow> rec ps (map_of kvs p) = rec' ps (map_of kvs p)"
    using Cons.prems(1) by simp
  have d: "distinct names" "p \<notin> set names"
    using Cons.prems(2) by simp_all
  have keep: "\<And>q kvs'. q \<in> set names \<Longrightarrow> map_of (AList.delete p kvs) q = map_of kvs q"
    "\<And>q y. q \<in> set names \<Longrightarrow> map_of (AList.update p y kvs) q = map_of kvs q"
    using d by (auto simp: AList.delete_conv' AList.update_conv')
  have a: "propertiesLoop rec schema names (AList.delete p kvs)
         = propertiesLoop rec' schema names (AList.delete p kvs)"
    by (rule Cons.IH) (simp_all add: keep Cons.prems(1) d)
  have b: "\<And>y. propertiesLoop rec schema names (AList.update p y kvs)
         = propertiesLoop rec' schema names (AList.update p y kvs)"
    by (rule Cons.IH) (simp_all add: keep Cons.prems(1) d)
  show ?case
    using getPropertySchema_le [of schema "KStr p" "Some (JObj kvs)"]
    by (simp add: a b p split: option.splits)
qed

lemma elementsLoop_cong:
  "(\<And>ps x. x \<in> set xs \<Longrightarrow> jsz ps < jsz schema \<or> jsz schema \<le> 1 \<Longrightarrow>
       jsz ps \<le> jsz schema \<Longrightarrow> rec ps (Some x) = rec' ps (Some x)) \<Longrightarrow>
   elementsLoop rec schema v i xs = elementsLoop rec' schema v i xs"
proof (induction xs arbitrary: i)
  case Nil
  show ?case by simp
next
  case (Cons x xs)
  show ?case
  proof (cases "getPropertySchema schema (KIdx i) (Some v)")
    case None
    then show ?thesis using Cons by simp
  next
    case (Some ps)
    have "jsz ps < jsz schema \<or> jsz schema \<le> 1"
      using getPropertySchema_lt [OF Some] by linarith
    then have "rec ps (Some x) = rec' ps (Some x)"
      using Cons.prems [of x ps] getPropertySchema_le [OF Some] by simp
    then show ?thesis using Cons Some by simp
  qed
qed

lemma padLoop_cong:
  "(\<And>ps x. jsz ps < jsz schema \<Longrightarrow> rec ps x = rec' ps x) \<Longrightarrow> 1 < jsz schema \<Longrightarrow>
   padLoop rec schema v is xs = padLoop rec' schema v is xs"
proof (induction "is" arbitrary: xs)
  case Nil
  show ?case by simp
next
  case (Cons i "is")
  show ?case
    using Cons getPropertySchema_lt [of schema "KIdx i" "Some v"]
    by (simp split: option.splits)
qed


lemma distinct_ownProperties: "distinct (map fst (ownProperties kvs))"
  by (simp add: ownProperties_def distinct_clearjunk)

lemma map_of_ownProperties: "map_of (ownProperties kvs) = map_of kvs"
  by (simp add: ownProperties_def map_of_clearjunk)

lemma normalizeBody_cong [fundef_cong]:
  assumes "schema = schema'" "value = value'"
    and r: "\<And>ps x. jsz ps < jsz schema' \<or> (jsz ps = jsz schema' \<and> osz x < osz value') \<Longrightarrow>
              rec ps x = rec' ps x"
  shows "normalizeBody rx toKey rec schema value = normalizeBody rx toKey rec' schema' value'"
proof (cases "1 < jsz schema'")
  case True
  have lt: "\<And>ps x. jsz ps < jsz schema' \<Longrightarrow> rec ps x = rec' ps x"
    using r by blast
  have obj: "\<And>kvs. populateObjectDefaults toKey rec kvs schema' = populateObjectDefaults toKey rec' kvs schema'"
    unfolding populateObjectDefaults_def
    using requiredLoop_cong [of schema' rec rec', OF lt True]
      propertiesLoop_cong_big [of schema' rec rec', OF lt True]
    by (simp split: prod.splits)
  have el: "\<And>es i. elementsLoop rec schema' (JArr es) i es = elementsLoop rec' schema' (JArr es) i es"
    by (rule elementsLoop_cong) (use True lt in auto)
  have arr: "\<And>es. populateArrayDefaults rec es schema' = populateArrayDefaults rec' es schema'"
  proof -
    fix es
    have pad: "\<And>v is xs. padLoop rec schema' v is xs = padLoop rec' schema' v is xs"
      by (rule padLoop_cong [OF lt True])
    show "populateArrayDefaults rec es schema' = populateArrayDefaults rec' es schema'"
      unfolding populateArrayDefaults_def Let_def el pad ..
  qed
  show ?thesis
    unfolding assms(1,2) normalizeBody_def Let_def obj arr ..
next
  case False
  then have small: "jsz schema' \<le> 1" by simp
  have f: "\<And>k. fld schema' k = None"
    using small by (rule jsz_one_fld)
  have v1: "(case value' of None \<Rightarrow> getDefaultSchemaValue schema'
             | Some v \<Rightarrow> if \<not> isValueTypeAny value' (getValueType value') (fld schema' ''type'')
                 then getDefaultSchemaValue schema' else v)
            = (case value' of None \<Rightarrow> JNull | Some v \<Rightarrow> v)"
    by (simp add: f isValueTypeAny_def getDefaultSchemaValue_def getDefaultTypeValue_def
        split: option.splits)
  show ?thesis
  proof (cases value')
    case None
    show ?thesis
      unfolding assms(1,2) normalizeBody_def Let_def v1 by (simp add: None)
  next
    case (Some v)
    have obj: "populateObjectDefaults toKey rec kvs schema' = populateObjectDefaults toKey rec' kvs schema'"
      if v: "v = JObj kvs" for kvs
    proof -
      have "propertiesLoop rec schema' (map fst (ownProperties kvs)) kvs
          = propertiesLoop rec' schema' (map fst (ownProperties kvs)) kvs"
      proof (rule propertiesLoop_cong_small [OF _ distinct_ownProperties])
        fix q ps
        assume q: "q \<in> set (map fst (ownProperties kvs))" and ps: "jsz ps \<le> jsz schema'"
        then obtain y where y: "map_of kvs q = Some y"
          by (metis map_of_ownProperties map_of_eq_None_iff not_Some_eq set_map)
        then have "jsz y < jsz v"
          unfolding v by (intro jsz_entry_lt map_of_SomeD)
        then show "rec ps (map_of kvs q) = rec' ps (map_of kvs q)"
          using ps by (intro r) (auto simp: y osz_def Some)
      qed
      then show ?thesis
        by (simp add: populateObjectDefaults_def f)
    qed
    have arr: "populateArrayDefaults rec es schema' = populateArrayDefaults rec' es schema'"
      if v: "v = JArr es" for es
    proof -
      have "elementsLoop rec schema' (JArr es) 0 es = elementsLoop rec' schema' (JArr es) 0 es"
      proof (rule elementsLoop_cong)
        fix ps x
        assume "x \<in> set es" and ps: "jsz ps \<le> jsz schema'"
        then have "jsz x < jsz v"
          unfolding v by (intro jsz_elem_lt)
        then show "rec ps (Some x) = rec' ps (Some x)"
          using ps by (intro r) (auto simp: osz_def Some)
      qed
      then show ?thesis
        by (simp add: populateArrayDefaults_def Let_def num_fld_def f)
    qed
    show ?thesis
      unfolding assms(1,2) normalizeBody_def Let_def v1
      by (cases v) (simp_all add: Some obj arr)
  qed
qed

text \<open>\<^verbatim>\<open>_getValidValueOrDefault\<close>\<close>

function getValidValueOrDefault' ::
  "regexHost \<Rightarrow> (json \<Rightarrow> string) \<Rightarrow> json \<Rightarrow> json option \<Rightarrow> json" where
  "getValidValueOrDefault' rx toKey schema value =
     normalizeBody rx toKey (getValidValueOrDefault' rx toKey) schema value"
  by pat_completeness auto
termination
  by (relation "inv_image (less_than <*lex*> less_than)
        (\<lambda>(rx, toKey, schema, value). (jsz schema, osz value))") auto

declare getValidValueOrDefault'.simps [simp del]

text \<open>The public entry point. Reading \<^verbatim>\<open>schema.type\<close> of the schema \<^verbatim>\<open>null\<close> is a TypeError.\<close>

definition getValidValueOrDefault ::
  "regexHost \<Rightarrow> (json \<Rightarrow> string) \<Rightarrow> json \<Rightarrow> json option \<Rightarrow> error + json" where
  "getValidValueOrDefault rx toKey schema value =
     (if schema = JNull then Inl TypeError
      else Inr (getValidValueOrDefault' rx toKey schema value))"

lemmas normalize_defs = getDefaultTypeValue_def getDefaultSchemaValue_def clone_def
  propertyKey_def setDelete_def populateObjectDefaults_def truncate_def splice_def
  populateArrayDefaults_def normalizeBody_def getValidValueOrDefault_def
  getValidValueOrDefault'.simps

text \<open>
  C3 (replacement of an absent or mistyped value). The replacement value in the words of the
  specification: the schema's default when its runtime type matches \<^verbatim>\<open>schema.type\<close>, otherwise
  the canonical zero value of the type.
\<close>

definition canonicalZero :: "json option \<Rightarrow> json" where
  "canonicalZero type =
     (if type = Some (JStr ''null'') then JNull
      else if type = Some (JStr ''boolean'') then JBool False
      else if type = Some (JStr ''number'') \<or> type = Some (JStr ''integer'') then JNum 0
      else if type = Some (JStr ''string'') then JStr ''''
      else if type = Some (JStr ''array'') then JArr []
      else if type = Some (JStr ''object'') then JObj []
      else JNull)"

definition specReplacement :: "json \<Rightarrow> json" where
  "specReplacement schema =
     (case fld schema ''default'' of
        Some d \<Rightarrow>
          (if isValueTypeAny (Some d) (getValueType (Some d)) (fld schema ''type'') then d
           else canonicalZero (fld schema ''type''))
      | None \<Rightarrow> canonicalZero (fld schema ''type''))"

lemma getDefaultSchemaValue_spec: "getDefaultSchemaValue schema = specReplacement schema"
  by (auto simp: getDefaultSchemaValue_def specReplacement_def getDefaultTypeValue_def
      canonicalZero_def clone_def split: option.splits json.splits)

text \<open>
  C3, continued. When the value is absent or its runtime type does not match
  \<^verbatim>\<open>schema.type\<close>, the result of the normalization is the replacement value itself when that is
  a primitive, and the replacement value with its members normalized when it is an object
  or an array. Normalizing \<^verbatim>\<open>{}\<close> and \<^verbatim>\<open>{a: "x"}\<close> against the schema of the claim yields
  \<^verbatim>\<open>{a: 5}\<close>.
\<close>

theorem mismatch_replaced_by_default:
  "((value = None \<or> \<not> isValueTypeAny value (getValueType value) (fld schema ''type'')) \<longrightarrow>
      getValidValueOrDefault' rx toKey schema value =
        (case specReplacement schema of
           JObj kvs \<Rightarrow> populateObjectDefaults toKey (getValidValueOrDefault' rx toKey) kvs schema
         | JArr elems \<Rightarrow> populateArrayDefaults (getValidValueOrDefault' rx toKey) elems schema
         | d \<Rightarrow> d)) \<and>
   getValidValueOrDefault rx toKey
      (JObj [(''type'', JStr ''object''), (''required'', JArr [JStr ''a'']),
             (''properties'', JObj [(''a'', JObj [(''type'', JStr ''number''), (''default'', JNum 5)])])])
      (Some (JObj [])) = Inr (JObj [(''a'', JNum 5)]) \<and>
   getValidValueOrDefault rx toKey
      (JObj [(''type'', JStr ''object''), (''required'', JArr [JStr ''a'']),
             (''properties'', JObj [(''a'', JObj [(''type'', JStr ''number''), (''default'', JNum 5)])])])
      (Some (JObj [(''a'', JStr ''x'')])) = Inr (JObj [(''a'', JNum 5)])"
proof (intro conjI impI)
  assume a: "value = None \<or> \<not> isValueTypeAny value (getValueType value) (fld schema ''type'')"
  have v1: "(case value of None \<Rightarrow> getDefaultSchemaValue schema
             | Some v \<Rightarrow> if \<not> isValueTypeAny value (getValueType value) (fld schema ''type'')
                 then getDefaultSchemaValue schema else v) = specReplacement schema"
    using a by (auto simp: getDefaultSchemaValue_spec split: option.splits)
  show "getValidValueOrDefault' rx toKey schema value =
        (case specReplacement schema of
           JObj kvs \<Rightarrow> populateObjectDefaults toKey (getValidValueOrDefault' rx toKey) kvs schema
         | JArr elems \<Rightarrow> populateArrayDefaults (getValidValueOrDefault' rx toKey) elems schema
         | d \<Rightarrow> d)"
    unfolding getValidValueOrDefault'.simps [of rx toKey schema "value"] normalizeBody_def Let_def v1
    by (simp add: getDefaultSchemaValue_spec split: json.splits)
qed (simp_all add: nav_defs info_defs validate_defs normalize_defs AList.clearjunk.simps AList.delete_eq)

theorem mismatch_replaced_by_default_witness:
  "\<not> isValueTypeAny (Some (JStr ''x'')) (getValueType (Some (JStr ''x'')))
       (fld (JObj [(''type'', JStr ''number''), (''default'', JNum 5)]) ''type'') \<and>
   specReplacement (JObj [(''type'', JStr ''number''), (''default'', JNum 5)]) = JNum 5 \<and>
   getValidValueOrDefault' noRegex (\<lambda>p. []) (JObj [(''type'', JStr ''number''), (''default'', JNum 5)])
      (Some (JStr ''x'')) = JNum 5 \<and>
   specReplacement (JObj [(''type'', JStr ''string''), (''default'', JNum 5)]) = JStr [] \<and>
   getValidValueOrDefault' noRegex (\<lambda>p. []) (JObj [(''type'', JStr ''string''), (''default'', JNum 5)])
      None = JStr []"
  using mismatch_replaced_by_default [of "Some (JStr ''x'')" "JObj [(''type'', JStr ''number''), (''default'', JNum 5)]"
      noRegex "\<lambda>p. []"]
    mismatch_replaced_by_default [of None "JObj [(''type'', JStr ''string''), (''default'', JNum 5)]"
      noRegex "\<lambda>p. []"]
  by (simp add: nav_defs specReplacement_def canonicalZero_def)

text \<open>
  C4 (arrays are padded to \<^verbatim>\<open>minItems\<close> and truncated to \<^verbatim>\<open>maxItems\<close>). The three steps in
  the words of the specification: every element is normalized against the sub-schema of
  its index (an element without one is kept), then elements are appended, each the
  normalization of an absent value against the sub-schema of the new index, until nothing
  is missing or an index has no sub-schema, and finally the list is cut to \<^verbatim>\<open>maxItems\<close>.
\<close>

definition specElements :: "normalizer \<Rightarrow> json \<Rightarrow> json \<Rightarrow> json list \<Rightarrow> json list" where
  "specElements rec schema value elems =
     map (\<lambda>(i, x). case getPropertySchema schema (KIdx i) (Some value) of
                      None \<Rightarrow> x
                    | Some propertySchema \<Rightarrow> rec propertySchema (Some x))
       (enumerate 0 elems)"

fun specPad :: "normalizer \<Rightarrow> json \<Rightarrow> json \<Rightarrow> nat \<Rightarrow> json list \<Rightarrow> json list" where
  "specPad rec schema value 0 xs = xs"
| "specPad rec schema value (Suc missing) xs =
     (case getPropertySchema schema (KIdx (length xs)) (Some value) of
        None \<Rightarrow> xs
      | Some propertySchema \<Rightarrow> specPad rec schema value missing (xs @ [rec propertySchema None]))"

definition specPadTo :: "normalizer \<Rightarrow> json \<Rightarrow> json \<Rightarrow> nat option \<Rightarrow> json list \<Rightarrow> json list" where
  "specPadTo rec schema value minItems xs =
     (case minItems of None \<Rightarrow> xs | Some m \<Rightarrow> specPad rec schema value (m - length xs) xs)"

definition specTruncate :: "nat option \<Rightarrow> json list \<Rightarrow> json list" where
  "specTruncate maxItems xs = (case maxItems of None \<Rightarrow> xs | Some m \<Rightarrow> take m xs)"

lemma elementsLoop_enumerate:
  "elementsLoop rec schema v i xs =
     map (\<lambda>(i, x). case getPropertySchema schema (KIdx i) (Some v) of
                      None \<Rightarrow> x | Some ps \<Rightarrow> rec ps (Some x)) (enumerate i xs)"
  by (induction xs arbitrary: i) simp_all

lemma length_elementsLoop [simp]: "length (elementsLoop rec schema v i xs) = length xs"
  by (simp add: elementsLoop_enumerate)

lemma padLoop_specPad:
  "padLoop rec schema v [length xs ..< length xs + k] xs = specPad rec schema v k xs"
proof (induction k arbitrary: xs)
  case 0
  show ?case by simp
next
  case (Suc k)
  have e: "[length xs ..< length xs + Suc k] = length xs # [Suc (length xs) ..< Suc (length xs) + k]"
    by (simp add: upt_conv_Cons del: upt_Suc)
  show ?case
  proof (cases "getPropertySchema schema (KIdx (length xs)) (Some v)")
    case None
    then show ?thesis unfolding e by simp
  next
    case (Some ps)
    have "padLoop rec schema v [length (xs @ [rec ps None]) ..< length (xs @ [rec ps None]) + k]
            (xs @ [rec ps None]) = specPad rec schema v k (xs @ [rec ps None])"
      by (rule Suc)
    then show ?thesis
      unfolding e by (simp only: padLoop.simps specPad.simps Some option.case length_append_singleton)
  qed
qed

lemma splice_take:
  assumes m: "m < length xs"
  shows "splice (of_nat m) (of_nat (length xs) - of_nat m) xs = take m xs"
proof -
  have d: "(of_nat (length xs) - of_nat m :: rat) = of_nat (length xs - m)"
    using m by (simp add: of_nat_diff)
  have t1: "truncate (of_nat m) = int m"
    by (simp add: truncate_def)
  have t2: "truncate (of_nat (length xs - m)) = int (length xs - m)"
    by (simp add: truncate_def)
  have "splice (of_nat m) (of_nat (length xs - m)) xs = take m xs"
    unfolding splice_def Let_def t1 t2 using m by (simp add: min_def max_def)
  then show ?thesis by (simp only: d)
qed


lemma specElements_loop: "elementsLoop rec schema v 0 xs = specElements rec schema v xs"
  by (simp add: elementsLoop_enumerate specElements_def)

lemma populateArrayDefaults_spec:
  assumes mn: "num_fld schema ''minItems'' = map_option of_nat minItems"
    and mx: "num_fld schema ''maxItems'' = map_option of_nat maxItems"
  shows "populateArrayDefaults rec elems schema =
     JArr (specTruncate maxItems
             (specPadTo rec schema (JArr elems) minItems
                (specElements rec schema (JArr elems) elems)))"
proof -
  let ?xs1 = "specElements rec schema (JArr elems) elems"
  let ?xs2 = "specPadTo rec schema (JArr elems) minItems ?xs1"
  have pad: "(case num_fld schema ''minItems'' of
                Some m \<Rightarrow> (if of_nat (length ?xs1) < m
                    then padLoop rec schema (JArr elems) [length ?xs1 ..< nat \<lceil>m\<rceil>] ?xs1
                    else ?xs1)
              | None \<Rightarrow> ?xs1) = ?xs2"
  proof (cases minItems)
    case None
    then show ?thesis by (simp add: mn specPadTo_def)
  next
    case (Some m)
    show ?thesis
    proof (cases "length ?xs1 < m")
      case True
      then have "[length ?xs1 ..< m] = [length ?xs1 ..< length ?xs1 + (m - length ?xs1)]"
        by simp
      then show ?thesis
        using True padLoop_specPad [of rec schema "JArr elems" ?xs1 "m - length ?xs1"]
        by (simp add: mn Some specPadTo_def)
    next
      case False
      then show ?thesis by (simp add: mn Some specPadTo_def)
    qed
  qed
  have tr: "(case num_fld schema ''maxItems'' of
                Some m \<Rightarrow> (if of_nat (length ?xs2) > m
                    then splice m (of_nat (length ?xs2) - m) ?xs2 else ?xs2)
              | None \<Rightarrow> ?xs2) = specTruncate maxItems ?xs2"
    by (cases maxItems) (simp_all add: mx specTruncate_def splice_take)
  show ?thesis
    unfolding populateArrayDefaults_def Let_def specElements_loop pad tr ..
qed

lemma length_specPad_le: "length (specPad rec schema v k xs) \<le> length xs + k"
proof (induction k arbitrary: xs)
  case (Suc k)
  show ?case using Suc [of "xs @ [y]" for y] by (auto split: option.splits)
qed simp

lemma length_specPad:
  "(\<And>i. i < length xs + k \<Longrightarrow> getPropertySchema schema (KIdx i) (Some v) \<noteq> None) \<Longrightarrow>
   length (specPad rec schema v k xs) = length xs + k"
proof (induction k arbitrary: xs)
  case (Suc k)
  obtain ps where ps: "getPropertySchema schema (KIdx (length xs)) (Some v) = Some ps"
    using Suc.prems [of "length xs"] by auto
  have "length (specPad rec schema v k (xs @ [rec ps None])) = length (xs @ [rec ps None]) + k"
    by (rule Suc.IH) (use Suc.prems in simp)
  then show ?case by (simp add: ps)
qed simp





section \<open>Guarded View\<close>

text \<open>
  The backing target of a view is a plain object or an array. An array carries, besides
  its elements, the named properties that the pass-through branch of the \<^verbatim>\<open>set\<close> trap can
  put on it; an element \<open>None\<close> is a hole, which only a write to \<^verbatim>\<open>length\<close> can create.
  Property keys are strings (symbols are not modelled).
\<close>

datatype target =
    TObject "(string \<times> json) list"
  | TArray "json option list" "(string \<times> json) list"

text \<open>The value the Schema Navigator is given; it reads only its type.\<close>

definition targetValue :: "target \<Rightarrow> json" where
  "targetValue t =
     (case t of
        TObject kvs \<Rightarrow> JObj kvs
      | TArray elems named \<Rightarrow> JArr (map (\<lambda>e. case e of None \<Rightarrow> JNull | Some v \<Rightarrow> v) elems))"

datatype viewError =
    IndexOutOfRange
  | PropertyNotSupported key
  | Rejected error
  | InvalidArrayLength

text \<open>
  The host's assignment \<^verbatim>\<open>target[property] = value\<close>. On an array the key \<^verbatim>\<open>length\<close> is
  special: the host converts the value to a number and raises a RangeError unless it is an
  integer from 0 to \<open>2\<^sup>3\<^sup>2 - 1\<close>. For a value that is a number the test is written out; the
  conversion of the other kinds of value is the parameter \<open>toLength\<close> (\<open>None\<close> for a
  RangeError).
\<close>

definition arrayLength :: "(json \<Rightarrow> nat option) \<Rightarrow> json \<Rightarrow> nat option" where
  "arrayLength toLength value =
     (case value of
        JNum q \<Rightarrow> (if 0 \<le> q \<and> q < 2 ^ 32 \<and> of_int \<lfloor>q\<rfloor> = q then Some (nat \<lfloor>q\<rfloor>) else None)
      | _ \<Rightarrow> toLength value)"

definition assignIndex :: "nat \<Rightarrow> json \<Rightarrow> json option list \<Rightarrow> json option list" where
  "assignIndex n value elems =
     (if n < length elems then elems[n := Some value]
      else elems @ replicate (n - length elems) None @ [Some value])"

definition assignNamed ::
  "(json \<Rightarrow> nat option) \<Rightarrow> string \<Rightarrow> json \<Rightarrow> json option list \<Rightarrow> (string \<times> json) list \<Rightarrow>
   viewError option \<times> target" where
  "assignNamed toLength property value elems named =
     (if property = ''length'' then
        (case arrayLength toLength value of
           None \<Rightarrow> (Some InvalidArrayLength, TArray elems named)
         | Some n \<Rightarrow> (None, TArray (take n elems @ replicate (n - length elems) None) named))
      else (None, TArray elems (AList.update property value named)))"

definition assign :: "key \<Rightarrow> json \<Rightarrow> target \<Rightarrow> target" where
  "assign property value t =
     (case t of
        TObject kvs \<Rightarrow> TObject (AList.update (keyName property) value kvs)
      | TArray elems named \<Rightarrow>
          (case property of
             KIdx n \<Rightarrow> TArray (assignIndex n value elems) named
           | _ \<Rightarrow> TArray elems (AList.update (keyName property) value named)))"

text \<open>
  The part of the \<^verbatim>\<open>set\<close> trap after the array branch: resolve, clone, validate, commit.
  The first component of the result is the exception, if any; the second is the target as
  the call leaves it.
\<close>

definition guardedWrite ::
  "regexHost \<Rightarrow> json \<Rightarrow> target \<Rightarrow> key \<Rightarrow> json \<Rightarrow> viewError option \<times> target" where
  "guardedWrite rx schema t property value =
     (case getPropertySchema schema property (Some (targetValue t)) of
        None \<Rightarrow> (Some (PropertyNotSupported property), t)
      | Some propertySchema \<Rightarrow>
          (let value' = clone value in
           case fst (validate rx value' propertySchema) of
             Some e \<Rightarrow> (Some (Rejected e), t)
           | None \<Rightarrow> (None, assign property value' t)))"

text \<open>\<^verbatim>\<open>JsonSchemaProxyHandler.set(target, property, value)\<close>\<close>

definition proxySet ::
  "regexHost \<Rightarrow> (json \<Rightarrow> nat option) \<Rightarrow> json \<Rightarrow> target \<Rightarrow> string \<Rightarrow> json \<Rightarrow>
   viewError option \<times> target" where
  "proxySet rx toLength schema t property value =
     (case t of
        TArray elems named \<Rightarrow>
          (if allDigits property then
             (if parseInt property > length elems then (Some IndexOutOfRange, t)
              else guardedWrite rx schema t (KIdx (parseInt property)) value)
           else assignNamed toLength property value elems named)
      | TObject kvs \<Rightarrow> guardedWrite rx schema t (KStr property) value)"

lemmas view_defs = targetValue_def arrayLength_def assignIndex_def assignNamed_def assign_def
  guardedWrite_def proxySet_def allDigits_def isDigit_def parseInt_def digitValue_def clone_def

text \<open>
  An instance of the parameter \<open>toLength\<close> for the closed examples, none of which consults
  it.
\<close>

definition noLength :: "json \<Rightarrow> nat option" where
  "noLength value = None"

text \<open>
  The key under which the \<^verbatim>\<open>set\<close> trap runs its resolve, validate and commit protocol: the
  property name on an object, and on an array the index written by an all-digit name that
  is not beyond the length. No other write to an array runs the protocol.
\<close>

definition guardedKey :: "target \<Rightarrow> string \<Rightarrow> key option" where
  "guardedKey t property =
     (case t of
        TObject kvs \<Rightarrow> Some (KStr property)
      | TArray elems named \<Rightarrow>
          (if allDigits property \<and> parseInt property \<le> length elems
           then Some (KIdx (parseInt property)) else None))"







end
